theory Spec2Isabelle
  imports Complex_Main
begin

section \<open>Values and errors\<close>

text \<open>
  Floating-point tensors hold finite numbers and the three special values of IEEE
  arithmetic. The operations below are the exact ones on finite numbers, with the
  special values where they come from and as they propagate: \<open>log 0 = -inf\<close>,
  \<open>0 / 0 = nan\<close>, \<open>0 * inf = nan\<close>, and so on. Where the rounding of a result is
  modelled, it is applied to the result of the exact operation.
\<close>

datatype fval = Fin real | PInf | NInf | NaN

datatype error =
    AssertionError
  | ValueError
  | NotImplementedError
  | RuntimeError
  | IndexError
  | KeyError
  | TypeError
  | ZeroDivisionError

fun fneg :: "fval \<Rightarrow> fval" where
  "fneg (Fin x) = Fin (- x)"
| "fneg PInf = NInf"
| "fneg NInf = PInf"
| "fneg NaN = NaN"

fun fadd :: "fval \<Rightarrow> fval \<Rightarrow> fval" where
  "fadd NaN _ = NaN"
| "fadd _ NaN = NaN"
| "fadd (Fin x) (Fin y) = Fin (x + y)"
| "fadd PInf NInf = NaN"
| "fadd NInf PInf = NaN"
| "fadd PInf _ = PInf"
| "fadd _ PInf = PInf"
| "fadd NInf _ = NInf"
| "fadd _ NInf = NInf"

definition fsub :: "fval \<Rightarrow> fval \<Rightarrow> fval" where
  "fsub a b = fadd a (fneg b)"

text \<open>The sign of a value that is not NaN: \<open>-1\<close>, \<open>0\<close> or \<open>1\<close>.\<close>

fun fsign :: "fval \<Rightarrow> int" where
  "fsign (Fin x) = (if x < 0 then - 1 else if x = 0 then 0 else 1)"
| "fsign PInf = 1"
| "fsign NInf = - 1"
| "fsign NaN = 0"

fun fmul :: "fval \<Rightarrow> fval \<Rightarrow> fval" where
  "fmul NaN _ = NaN"
| "fmul _ NaN = NaN"
| "fmul (Fin x) (Fin y) = Fin (x * y)"
| "fmul a b =
     (if fsign a * fsign b = 0 then NaN else if fsign a * fsign b < 0 then NInf else PInf)"

fun fdiv :: "fval \<Rightarrow> fval \<Rightarrow> fval" where
  "fdiv NaN _ = NaN"
| "fdiv _ NaN = NaN"
| "fdiv (Fin x) (Fin y) =
     (if y \<noteq> 0 then Fin (x / y)
      else if x = 0 then NaN else if x < 0 then NInf else PInf)"
| "fdiv (Fin x) _ = Fin 0"
| "fdiv a (Fin y) = (if fsign a * (if y < 0 then - 1 else 1) < 0 then NInf else PInf)"
| "fdiv _ _ = NaN"

fun flog :: "fval \<Rightarrow> fval" where
  "flog (Fin x) = (if 0 < x then Fin (ln x) else if x = 0 then NInf else NaN)"
| "flog PInf = PInf"
| "flog NInf = NaN"
| "flog NaN = NaN"

fun fsqrt :: "fval \<Rightarrow> fval" where
  "fsqrt (Fin x) = (if 0 \<le> x then Fin (sqrt x) else NaN)"
| "fsqrt PInf = PInf"
| "fsqrt NInf = NaN"
| "fsqrt NaN = NaN"

text \<open>\<open>clip(-1, 1)\<close>: NaN stays NaN.\<close>

fun fclip :: "fval \<Rightarrow> fval" where
  "fclip (Fin x) = Fin (max (- 1) (min 1 x))"
| "fclip PInf = Fin 1"
| "fclip NInf = Fin (- 1)"
| "fclip NaN = NaN"

definition fsum :: "fval list \<Rightarrow> fval" where
  "fsum xs = foldl fadd (Fin 0) xs"

section \<open>Floating-point rounding\<close>

text \<open>
  A binary floating-point format with \<open>p\<close> significant bits holds the numbers
  \<open>m * 2 ^ e\<close> with \<open>\<bar>m\<bar> < 2 ^ p\<close>. The result of an arithmetic operation is the
  number of the format nearest to the exact result, and of two that are equally near the
  one with the even \<open>m\<close>. The range of the exponent is not modelled: no number is too
  large or too small for the format.
\<close>

text \<open>Rounding to the nearest integer, a tie to the even one.\<close>

definition round_even :: "real \<Rightarrow> int" where
  "round_even x =
     (let f = \<lfloor>x\<rfloor>; d = x - of_int f
      in if d < 1 / 2 then f else if 1 / 2 < d then f + 1 else if even f then f else f + 1)"

text \<open>
  The exponent \<open>e\<close> of a number other than zero: \<open>2 ^ e \<le> \<bar>x\<bar> < 2 ^ (e + 1)\<close>, found by
  halving a number from 2 on and by doubling a number below 1.
\<close>

function expo_up :: "real \<Rightarrow> int" where
  "expo_up x = (if 2 \<le> x then expo_up (x / 2) + 1 else 0)"
  by pat_completeness auto
termination
proof (relation "measure (\<lambda>x. nat \<lceil>x\<rceil>)")
  show "wf (measure (\<lambda>x. nat \<lceil>x\<rceil>))" by simp
next
  fix x :: real assume "2 \<le> x"
  then have "\<lceil>x / 2\<rceil> < \<lceil>x\<rceil>" "0 < \<lceil>x\<rceil>" by linarith+
  then show "(x / 2, x) \<in> measure (\<lambda>x. nat \<lceil>x\<rceil>)" by simp
qed

function expo_down :: "real \<Rightarrow> int" where
  "expo_down x = (if 0 < x \<and> x < 1 then expo_down (2 * x) - 1 else 0)"
  by pat_completeness auto
termination
proof (relation "measure (\<lambda>x. nat \<lceil>1 / x\<rceil>)")
  show "wf (measure (\<lambda>x. nat \<lceil>1 / x\<rceil>))" by simp
next
  fix x :: real assume "0 < x \<and> x < 1"
  then have x: "0 < x" "x < 1" by simp_all
  then have y: "1 < 1 / x" by simp
  have h: "1 / (2 * x) = (1 / x) / 2" by simp
  have "\<lceil>y / 2\<rceil> < \<lceil>y\<rceil> \<and> 0 < \<lceil>y\<rceil>" if "1 < y" for y :: real
  proof -
    have c: "1 < \<lceil>y\<rceil>" using that by (simp add: less_ceiling_iff)
    then have "2 \<le> real_of_int \<lceil>y\<rceil>" by linarith
    moreover have "y \<le> real_of_int \<lceil>y\<rceil>" by linarith
    ultimately have "y / 2 \<le> real_of_int \<lceil>y\<rceil> - 1" by linarith
    then have "y / 2 \<le> real_of_int (\<lceil>y\<rceil> - 1)" by simp
    then have "\<lceil>y / 2\<rceil> \<le> \<lceil>y\<rceil> - 1" by (simp only: ceiling_le_iff)
    with c show ?thesis by simp
  qed
  from this[OF y] have "\<lceil>(1 / x) / 2\<rceil> < \<lceil>1 / x\<rceil>" "0 < \<lceil>1 / x\<rceil>" by simp_all
  then show "(2 * x, x) \<in> measure (\<lambda>x. nat \<lceil>1 / x\<rceil>)" by (simp add: h)
qed

declare expo_up.simps [simp del] expo_down.simps [simp del]

definition expo :: "real \<Rightarrow> int" where
  "expo x = (if 1 \<le> \<bar>x\<bar> then expo_up \<bar>x\<bar> else expo_down \<bar>x\<bar>)"

text \<open>Rounding to \<open>p\<close> significant bits: to the nearest multiple of the unit in the last place.\<close>

definition round_to :: "nat \<Rightarrow> real \<Rightarrow> real" where
  "round_to p x =
     (let ulp = 2 powi (expo x - int p + 1) in real_of_int (round_even (x / ulp)) * ulp)"

text \<open>
  The two formats of the program: the numbers of Python are \<open>float64\<close>, the tensors
  and arrays that the estimators of this module create are \<open>float32\<close>.
\<close>

definition float32 :: "real \<Rightarrow> real" where
  "float32 = round_to 24"

definition float64 :: "real \<Rightarrow> real" where
  "float64 = round_to 53"

text \<open>Rounding the result of an operation; the special values are not rounded.\<close>

fun rounded :: "(real \<Rightarrow> real) \<Rightarrow> fval \<Rightarrow> fval" where
  "rounded r (Fin x) = Fin (r x)"
| "rounded r PInf = PInf"
| "rounded r NInf = NInf"
| "rounded r NaN = NaN"

section \<open>Tensors\<close>

text \<open>
  A tensor as the orchestrator sees it: its number of dimensions, the size of its last
  dimension, and, when it is a matrix, its rows (samples) of columns (features).
\<close>

record 'a tensor =
  ndim :: nat
  n_cols :: nat
  rows :: "'a list list"


text \<open>\<open>Tensor.long()\<close> on a finite floating-point value truncates towards zero.\<close>

definition long_of :: "real \<Rightarrow> int" where
  "long_of x = (if 0 \<le> x then \<lfloor>x\<rfloor> else \<lceil>x\<rceil>)"

definition long :: "real tensor \<Rightarrow> int tensor" where
  "long d = \<lparr> ndim = ndim d, n_cols = n_cols d, rows = map (map long_of) (rows d) \<rparr>"

text \<open>
  The conversion of an infinite value or of NaN to a 64-bit integer is not defined by the
  library; the conversion instruction of x86-64 returns the least 64-bit integer, which is
  what is modelled.
\<close>

definition INT64_MIN :: int where
  "INT64_MIN = - (2 ^ 63)"

fun long_of_fval :: "fval \<Rightarrow> int" where
  "long_of_fval (Fin x) = long_of x"
| "long_of_fval _ = INT64_MIN"

definition long_fval :: "fval tensor \<Rightarrow> int tensor" where
  "long_fval d =
     \<lparr> ndim = ndim d, n_cols = n_cols d, rows = map (map long_of_fval) (rows d) \<rparr>"

section \<open>Categorical mutual information\<close>

text \<open>
  \<open>data.split(chunk_size)\<close>: consecutive chunks of at most \<open>chunk_size\<close> rows; one
  (empty) chunk when there are no rows. A chunk size of zero is refused unless there are
  no rows.
\<close>

definition split :: "nat \<Rightarrow> 'a list \<Rightarrow> error + 'a list list" where
  "split c xs =
     (if c = 0 then (if xs = [] then Inr [[]] else Inl RuntimeError)
      else Inr (map (\<lambda>k. take c (drop (k * c) xs))
                  [0..<max 1 ((length xs + c - 1) div c)]))"

text \<open>
  \<open>joint_values[i, j, s] = chunk[s, i] * num_categories + chunk[s, j]\<close>
\<close>

definition joint_values :: "nat \<Rightarrow> int list list \<Rightarrow> nat \<Rightarrow> nat \<Rightarrow> int list" where
  "joint_values K chunk i j = map (\<lambda>row. row ! i * int K + row ! j) chunk"

text \<open>
  \<open>scatter_add_(-1, joint_values, ones)\<close>: every index adds one to its cell of the last
  dimension. An index outside the last dimension is an error.
\<close>

definition scatter_ones :: "int list \<Rightarrow> int list \<Rightarrow> int list" where
  "scatter_ones idxs cnt = fold (\<lambda>v c. c[nat v := c ! nat v + 1]) idxs cnt"

definition scatter_add :: "nat \<Rightarrow> nat \<Rightarrow> int list list \<Rightarrow> int list list list
    \<Rightarrow> error + int list list list" where
  "scatter_add F K chunk jc =
     (if \<forall>i \<in> set [0..<F]. \<forall>j \<in> set [0..<F]. \<forall>v \<in> set (joint_values K chunk i j).
           0 \<le> v \<and> v < int (K * K)
      then Inr (map (\<lambda>i. map (\<lambda>j. scatter_ones (joint_values K chunk i j) (jc ! i ! j))
                  [0..<F]) [0..<F])
      else Inl RuntimeError)"

text \<open>The loop over the chunks; the first failing chunk ends it.\<close>

fun accumulate :: "nat \<Rightarrow> nat \<Rightarrow> int list list list \<Rightarrow> int list list list
    \<Rightarrow> error + int list list list" where
  "accumulate F K [] jc = Inr jc"
| "accumulate F K (chunk # chunks) jc =
     (case scatter_add F K chunk jc of
        Inl e \<Rightarrow> Inl e
      | Inr jc' \<Rightarrow> accumulate F K chunks jc')"

definition zeros3 :: "nat \<Rightarrow> nat \<Rightarrow> int list list list" where
  "zeros3 F M = replicate F (replicate F (replicate M 0))"

text \<open>
  The estimator proper, from the joint counts on: \<open>jc ! i ! j ! (a * K + b)\<close> is the
  entry \<open>[i, j, a, b]\<close> of the count tensor after \<open>view\<close>.
\<close>

definition marginals :: "real \<Rightarrow> nat \<Rightarrow> nat \<Rightarrow> nat \<Rightarrow> int list list list \<Rightarrow> fval list list" where
  "marginals alpha N F K jc =
     map (\<lambda>i. map (\<lambda>a.
            fdiv (Fin (real_of_int (jc ! i ! i ! (a * K + a)) + real K * alpha))
                 (Fin (real N + real (K ^ 2) * alpha)))
          [0..<K]) [0..<F]"

definition joints :: "real \<Rightarrow> nat \<Rightarrow> nat \<Rightarrow> nat \<Rightarrow> int list list list
    \<Rightarrow> fval list list list list" where
  "joints alpha N F K jc =
     map (\<lambda>i. map (\<lambda>j. map (\<lambda>a. map (\<lambda>b.
            if i = j then (if a = b then marginals alpha N F K jc ! i ! a else Fin 0)
            else fdiv (Fin (real_of_int (jc ! i ! j ! (a * K + b)) + alpha))
                      (Fin (real N + real (K ^ 2) * alpha)))
          [0..<K]) [0..<K]) [0..<F]) [0..<F]"

definition outers :: "nat \<Rightarrow> nat \<Rightarrow> fval list list \<Rightarrow> fval list list list list" where
  "outers F K m =
     map (\<lambda>i. map (\<lambda>j. map (\<lambda>k. map (\<lambda>l. fmul (m ! i ! k) (m ! j ! l))
          [0..<K]) [0..<K]) [0..<F]) [0..<F]"

definition mi_from_counts :: "real \<Rightarrow> nat \<Rightarrow> nat \<Rightarrow> nat \<Rightarrow> int list list list \<Rightarrow> fval list list" where
  "mi_from_counts alpha N F K jc =
     (let js = joints alpha N F K jc;
          os = outers F K (marginals alpha N F K jc)
      in map (\<lambda>i. map (\<lambda>j.
            if i = j then Fin 0
            else fsum (map (\<lambda>a. fsum (map (\<lambda>b.
                   fmul (js ! i ! j ! a ! b)
                        (fsub (flog (js ! i ! j ! a ! b)) (flog (os ! i ! j ! a ! b))))
                 [0..<K])) [0..<K]))
          [0..<F]) [0..<F])"

text \<open>
  \<open>int(data.max().item() + 1)\<close>; the maximum of a tensor without elements is an error.
\<close>

definition infer_num_categories :: "int list list \<Rightarrow> error + int" where
  "infer_num_categories rs =
     (if concat rs = [] then Inl RuntimeError else Inr (Max (set (concat rs)) + 1))"

definition bind :: "error + 'a \<Rightarrow> ('a \<Rightarrow> error + 'b) \<Rightarrow> error + 'b" where
  "bind m f = (case m of Inl e \<Rightarrow> Inl e | Inr x \<Rightarrow> f x)"

definition categorical_mutual_info ::
    "int tensor \<Rightarrow> real \<Rightarrow> int option \<Rightarrow> nat option \<Rightarrow> error + fval list list" where
  "categorical_mutual_info data alpha num_categories chunk_size =
     (if ndim data \<noteq> 2 then Inl AssertionError
      else
        let n_samples = length (rows data); n_features = n_cols data in
        bind (case num_categories of
                None \<Rightarrow> infer_num_categories (rows data)
              | Some k \<Rightarrow> Inr k)
          (\<lambda>k. if k < 0 then Inl RuntimeError
             else
               let K = nat k;
                   c = (case chunk_size of None \<Rightarrow> n_samples | Some c \<Rightarrow> c) in
               bind (split c (rows data))
                 (\<lambda>chunks. bind (accumulate n_features K chunks (zeros3 n_features (K * K)))
                   (\<lambda>jc. Inr (mi_from_counts alpha n_samples n_features K jc)))))"

section \<open>Gaussian mutual information\<close>

definition column :: "'a tensor \<Rightarrow> nat \<Rightarrow> 'a list" where
  "column d j = map (\<lambda>r. r ! j) (rows d)"

text \<open>\<open>data[:, subset]\<close>\<close>

definition select_columns :: "'a tensor \<Rightarrow> nat list \<Rightarrow> 'a tensor" where
  "select_columns d js =
     \<lparr> ndim = 2, n_cols = length js, rows = map (\<lambda>r. map (\<lambda>j. r ! j) js) (rows d) \<rparr>"

definition mean :: "real list \<Rightarrow> fval" where
  "mean xs = fdiv (Fin (sum_list xs)) (Fin (real (length xs)))"

text \<open>
  \<open>torch.cov\<close> of the transposed data (one variable per column of \<open>d\<close>), with the
  default correction of one: the sum of products of deviations over \<open>N - 1\<close>, and over
  zero when there are fewer than two samples.
\<close>

definition cov :: "real tensor \<Rightarrow> fval list list" where
  "cov d =
     map (\<lambda>i. map (\<lambda>j.
            fdiv (fsum (map (\<lambda>r. fmul (fsub (Fin (r ! i)) (mean (column d i)))
                                       (fsub (Fin (r ! j)) (mean (column d j))))
                          (rows d)))
                 (Fin (real (length (rows d) - 1))))
          [0..<n_cols d]) [0..<n_cols d]"

text \<open>
  \<open>torch.corrcoef\<close>: the covariance divided by the standard deviation of its row, then
  by that of its column, then clipped to \<open>[-1, 1]\<close>.
\<close>

definition corrcoef :: "real tensor \<Rightarrow> fval list list" where
  "corrcoef d =
     (let c = cov d; stddev = map (\<lambda>i. fsqrt (c ! i ! i)) [0..<n_cols d]
      in map (\<lambda>i. map (\<lambda>j. fclip (fdiv (fdiv (c ! i ! j) (stddev ! i)) (stddev ! j)))
                [0..<n_cols d]) [0..<n_cols d])"

text \<open>\<open>-0.5 * log(1 - rho ** 2)\<close>, entry by entry.\<close>

definition gaussian_mi :: "fval list list \<Rightarrow> fval list list" where
  "gaussian_mi rho =
     map (map (\<lambda>r. fmul (Fin (- (1 / 2))) (flog (fsub (Fin 1) (fmul r r))))) rho"

definition fill_diagonal :: "'a \<Rightarrow> 'a list list \<Rightarrow> 'a list list" where
  "fill_diagonal v m = map (\<lambda>i. (m ! i)[i := v]) [0..<length m]"

section \<open>Heterogeneous mutual information\<close>

definition set2 :: "'a list list \<Rightarrow> nat \<Rightarrow> nat \<Rightarrow> 'a \<Rightarrow> 'a list list" where
  "set2 m i j v = m[i := (m ! i)[j := v]]"

text \<open>\<open>m[idxs.unsqueeze(1), idxs] = blk\<close>\<close>

definition assign_block :: "'a list list \<Rightarrow> nat list \<Rightarrow> 'a list list \<Rightarrow> 'a list list" where
  "assign_block m idxs blk =
     fold (\<lambda>p m. fold (\<lambda>q m. set2 m (idxs ! p) (idxs ! q) (blk ! p ! q))
                    [0..<length idxs] m)
          [0..<length idxs] m"

definition GAUSSIAN_ENTROPY_EPSILON :: real where
  "GAUSSIAN_ENTROPY_EPSILON = 1 / 10000"

text \<open>\<open>torch.var(x, unbiased=False)\<close>: the mean squared deviation from the mean.\<close>

definition var :: "real list \<Rightarrow> fval" where
  "var xs =
     fdiv (fsum (map (\<lambda>x. fmul (fsub (Fin x) (mean xs)) (fsub (Fin x) (mean xs))) xs))
          (Fin (real (length xs)))"

definition gaussian_entropy :: "real list \<Rightarrow> fval" where
  "gaussian_entropy x =
     fmul (Fin (1 / 2))
       (fadd (flog (fadd (fmul (Fin (2 * pi)) (var x)) (Fin GAUSSIAN_ENTROPY_EPSILON)))
             (Fin 1))"

text \<open>\<open>int(data[:, d_index].max() + 1)\<close>\<close>

definition num_categories_of :: "real tensor \<Rightarrow> nat \<Rightarrow> nat" where
  "num_categories_of data d = nat (long_of (Max (set (column data d)) + 1))"

text \<open>\<open>data[:, d_index].long().bincount(minlength=...).float() / data.shape[0]\<close>\<close>

definition p_D :: "real tensor \<Rightarrow> nat \<Rightarrow> fval list" where
  "p_D data d =
     map (\<lambda>k. fdiv (Fin (real (count_list (map long_of (column data d)) (int k))))
                   (Fin (real (length (rows data)))))
         [0..<num_categories_of data d]"

text \<open>\<open>data[:, c_index][data[:, d_index] == i]\<close>\<close>

definition restrict_to :: "real tensor \<Rightarrow> nat \<Rightarrow> nat \<Rightarrow> nat \<Rightarrow> real list" where
  "restrict_to data c d i = map (\<lambda>r. r ! c) (filter (\<lambda>r. r ! d = real i) (rows data))"

definition h_C_given_D :: "real tensor \<Rightarrow> nat \<Rightarrow> nat \<Rightarrow> fval list" where
  "h_C_given_D data c d =
     map (\<lambda>i. gaussian_entropy (restrict_to data c d i)) [0..<num_categories_of data d]"

definition cross_mi :: "real tensor \<Rightarrow> nat \<Rightarrow> nat \<Rightarrow> fval" where
  "cross_mi data c d =
     fsub (gaussian_entropy (column data c))
          (fsum (map (\<lambda>(h, p). fmul h p) (zip (h_C_given_D data c d) (p_D data d))))"

text \<open>The two nested loops over the continuous and the discrete columns.\<close>

definition cross_loop :: "real tensor \<Rightarrow> nat list \<Rightarrow> nat list \<Rightarrow> fval list list
    \<Rightarrow> fval list list" where
  "cross_loop data cs ds mi =
     fold (\<lambda>c mi. fold (\<lambda>d mi.
             let mi' = set2 mi c d (cross_mi data c d)
             in set2 mi' d c (mi' ! c ! d)) ds mi) cs mi"

definition check_index :: "nat \<Rightarrow> nat list \<Rightarrow> 'a \<Rightarrow> error + 'a" where
  "check_index F idxs x = (if \<forall>i \<in> set idxs. i < F then Inr x else Inl IndexError)"

text \<open>The block of the continuous columns, filled when there are at least two.\<close>

definition continuous_block :: "real tensor \<Rightarrow> nat list \<Rightarrow> fval list list
    \<Rightarrow> error + fval list list" where
  "continuous_block data continuous_subset mi_matrix =
     (if 1 < length continuous_subset
      then check_index (n_cols data) continuous_subset
             (assign_block mi_matrix continuous_subset
                (gaussian_mi (fill_diagonal (Fin 0)
                   (corrcoef (select_columns data continuous_subset)))))
      else Inr mi_matrix)"

text \<open>The block of the discrete columns, filled when there are at least two.\<close>

definition discrete_block :: "real tensor \<Rightarrow> nat list \<Rightarrow> fval list list
    \<Rightarrow> error + fval list list" where
  "discrete_block data discrete_subset mi_matrix =
     (if 1 < length discrete_subset
      then bind (check_index (n_cols data) discrete_subset ())
             (\<lambda>_. bind (categorical_mutual_info
                           (long (select_columns data discrete_subset))
                           (1 / 100) None None)
               (\<lambda>blk. Inr (assign_block mi_matrix discrete_subset blk)))
      else Inr mi_matrix)"

text \<open>
  What can fail while the numbers of categories and the marginals \<open>p(D)\<close> are computed
  for every discrete column: a column index outside the data, the maximum of a column
  without samples, and \<open>bincount\<close> on a negative code.
\<close>

definition precompute :: "real tensor \<Rightarrow> nat list \<Rightarrow> error + unit" where
  "precompute data discrete_subset =
     bind (if discrete_subset = [] then Inr ()
           else if \<not> hd discrete_subset < n_cols data then Inl IndexError
           else if rows data = [] then Inl RuntimeError
           else check_index (n_cols data) discrete_subset ())
       (\<lambda>_. if \<exists>d \<in> set discrete_subset. \<exists>x \<in> set (column data d). long_of x < 0
             then Inl RuntimeError else Inr ())"

text \<open>
  What can fail in the two loops: a column index outside the data, and \<open>torch.stack\<close>
  on an empty list, when a discrete column has no category.
\<close>

definition cross_checks :: "real tensor \<Rightarrow> nat list \<Rightarrow> nat list \<Rightarrow> error + unit" where
  "cross_checks data continuous_subset discrete_subset =
     (if continuous_subset = [] then Inr ()
      else if \<not> hd continuous_subset < n_cols data then Inl IndexError
      else if \<exists>d \<in> set discrete_subset. num_categories_of data d = 0 then Inl RuntimeError
      else check_index (n_cols data) continuous_subset ())"

definition heterogeneous_mutual_info :: "real tensor \<Rightarrow> bool list \<Rightarrow> error + fval list list" where
  "heterogeneous_mutual_info data is_categorical_mask =
     (let continuous_subset = filter (\<lambda>i. \<not> is_categorical_mask ! i)
                                [0..<length is_categorical_mask];
          discrete_subset = filter (\<lambda>i. is_categorical_mask ! i)
                              [0..<length is_categorical_mask];
          mi_matrix = replicate (n_cols data) (replicate (n_cols data) (Fin 0))
      in
      bind (continuous_block data continuous_subset mi_matrix) (\<lambda>mi_matrix.
      bind (discrete_block data discrete_subset mi_matrix) (\<lambda>mi_matrix.
      bind (precompute data discrete_subset) (\<lambda>_.
      bind (cross_checks data continuous_subset discrete_subset) (\<lambda>_.
      Inr (fill_diagonal (Fin 0)
             (cross_loop data continuous_subset discrete_subset mi_matrix)))))))"

section \<open>Graph routines of the sparse-graph library\<close>

text \<open>
  The tree builder calls three routines of \<open>scipy.sparse.csgraph\<close>, which are not part
  of this repository. A sparse graph is the list of its stored entries
  \<open>(row, column, value)\<close>. A dense matrix is read as a graph by dropping the entries
  that are zero, infinite or NaN.
\<close>

type_synonym csgraph = "(nat \<times> nat \<times> real) list"

definition csgraph_from_dense :: "fval list list \<Rightarrow> csgraph" where
  "csgraph_from_dense m =
     concat (map (\<lambda>i. concat (map (\<lambda>j.
        case m ! i ! j of
          Fin x \<Rightarrow> (if x \<noteq> 0 then [(i, j, x)] else [])
        | _ \<Rightarrow> [])
       [0..<length m])) [0..<length m])"

text \<open>\<open>abs(mst)\<close>\<close>

definition abs_csgraph :: "csgraph \<Rightarrow> csgraph" where
  "abs_csgraph g = map (\<lambda>(i, j, w). (i, j, \<bar>w\<bar>)) g"

fun fless :: "fval \<Rightarrow> fval \<Rightarrow> bool" where
  "fless NaN _ = False"
| "fless _ NaN = False"
| "fless (Fin x) (Fin y) = (x < y)"
| "fless (Fin x) PInf = True"
| "fless NInf (Fin y) = True"
| "fless NInf PInf = True"
| "fless _ _ = False"

definition fmin :: "fval \<Rightarrow> fval \<Rightarrow> fval" where
  "fmin a b = (if fless b a then b else a)"

definition fmax :: "fval \<Rightarrow> fval \<Rightarrow> fval" where
  "fmax a b = (if fless a b then b else a)"

text \<open>
  \<open>dijkstra(graph, directed=False, return_predecessors=False)\<close>: the matrix of
  shortest-path distances, every stored entry being an edge usable in both directions
  with its value as length (\<open>unweighted\<close> is left at its default, \<open>False\<close>);
  \<open>inf\<close> where there is no path. The distances from one source are computed by
  \<open>n - 1\<close> rounds of relaxation of every edge.
\<close>

definition relax :: "csgraph \<Rightarrow> fval list \<Rightarrow> fval list" where
  "relax g d =
     map (\<lambda>v. fold (\<lambda>(i, j, w) best.
                  if i < length d \<and> j < length d then
                    (let best1 = (if j = v then fmin best (fadd (d ! i) (Fin w)) else best)
                     in if i = v then fmin best1 (fadd (d ! j) (Fin w)) else best1)
                  else best)
                g (d ! v))
         [0..<length d]"

definition dijkstra :: "nat \<Rightarrow> csgraph \<Rightarrow> fval list list" where
  "dijkstra n g =
     map (\<lambda>s. (relax g ^^ (n - 1)) (map (\<lambda>v. if v = s then Fin 0 else PInf) [0..<n]))
         [0..<n]"

text \<open>\<open>np.max(..., axis=1)\<close> of a row and \<open>np.argmin\<close>: the first index of a least element.\<close>

definition row_max :: "fval list \<Rightarrow> fval" where
  "row_max xs = fold (\<lambda>x m. fmax m x) (tl xs) (hd xs)"

fun argmin_from :: "fval list \<Rightarrow> nat \<Rightarrow> nat \<times> fval \<Rightarrow> nat" where
  "argmin_from [] k (b, v) = b"
| "argmin_from (x # xs) k (b, v) =
     argmin_from xs (Suc k) (if fless x v then (k, x) else (b, v))"

definition argmin :: "fval list \<Rightarrow> error + nat" where
  "argmin xs = (case xs of [] \<Rightarrow> Inl ValueError | x # rest \<Rightarrow> Inr (argmin_from rest 1 (0, x)))"

text \<open>
  \<open>breadth_first_order(graph, i_start, directed=False, return_predecessors=True)\<close>:
  the nodes in the order they are reached and, for every node reached other than the
  start, the node it was reached from; the other entries of the predecessor array keep the
  filler \<open>-9999\<close>.
\<close>

definition NULL_IDX :: int where
  "NULL_IDX = - 9999"

definition neighbours :: "csgraph \<Rightarrow> nat \<Rightarrow> nat list" where
  "neighbours g p =
     map (\<lambda>(i, j, w). j) (filter (\<lambda>(i, j, w). i = p) g) @
     map (\<lambda>(i, j, w). i) (filter (\<lambda>(i, j, w). j = p) g)"

definition visit :: "nat \<Rightarrow> nat \<Rightarrow> nat \<Rightarrow> nat list \<times> int list \<Rightarrow> nat list \<times> int list" where
  "visit head p c st =
     (case st of (nodes, pred) \<Rightarrow>
        if c < length pred \<and> c \<noteq> head \<and> pred ! c = NULL_IDX
        then (nodes @ [c], pred[c := int p])
        else (nodes, pred))"

definition unreached :: "nat list \<times> int list \<Rightarrow> nat" where
  "unreached st = card {c. c < length (snd st) \<and> snd st ! c = NULL_IDX} + length (fst st)"

function bfs_loop :: "csgraph \<Rightarrow> nat \<Rightarrow> nat \<Rightarrow> nat list \<times> int list \<Rightarrow> nat list \<times> int list" where
  "bfs_loop g head i st =
     (if i < length (fst st)
      then bfs_loop g head (Suc i)
             (fold (visit head (fst st ! i)) (neighbours g (fst st ! i)) st)
      else st)"
  by pat_completeness auto
termination
proof (relation "measure (\<lambda>(g, head, i, st). unreached st - i)")
  show "wf (measure (\<lambda>(g, head, i, st). unreached st - i))" by simp
next
  fix g :: csgraph and head i :: nat and st :: "nat list \<times> int list"
  assume less: "i < length (fst st)"
  have step: "unreached (visit head p c s) = unreached s" for p c s
  proof (cases s)
    case (Pair nodes pred)
    show ?thesis
    proof (cases "c < length pred \<and> c \<noteq> head \<and> pred ! c = NULL_IDX")
      case True
      have fin: "finite {k. k < length pred \<and> pred ! k = NULL_IDX}" by simp
      have "{k. k < length pred \<and> pred[c := int p] ! k = NULL_IDX}
              = {k. k < length pred \<and> pred ! k = NULL_IDX} - {c}"
        using True by (auto simp: nth_list_update NULL_IDX_def)
      moreover have "c \<in> {k. k < length pred \<and> pred ! k = NULL_IDX}"
        using True by simp
      ultimately have "card {k. k < length pred \<and> pred[c := int p] ! k = NULL_IDX}
              = card {k. k < length pred \<and> pred ! k = NULL_IDX} - 1"
        using fin by (simp add: card_Diff_singleton)
      moreover have "0 < card {k. k < length pred \<and> pred ! k = NULL_IDX}"
        using \<open>c \<in> _\<close> fin card_gt_0_iff by blast
      ultimately show ?thesis using True Pair by (simp add: visit_def unreached_def)
    next
      case False
      then show ?thesis using Pair by (auto simp: visit_def)
    qed
  qed
  have all: "unreached (fold (visit head p) cs s) = unreached s" for p cs s
    by (induction cs arbitrary: s) (simp_all add: step)
  have "i < unreached st" using less by (simp add: unreached_def)
  then show "((g, head, Suc i, fold (visit head (fst st ! i)) (neighbours g (fst st ! i)) st),
              (g, head, i, st)) \<in> measure (\<lambda>(g, head, i, st). unreached st - i)"
    by (simp add: all)
qed

declare bfs_loop.simps [simp del]

definition breadth_first_order :: "nat \<Rightarrow> csgraph \<Rightarrow> nat \<Rightarrow> nat list \<times> int list" where
  "breadth_first_order n g i_start = bfs_loop g i_start 0 ([i_start], replicate n NULL_IDX)"

section \<open>The maximum spanning tree\<close>

text \<open>
  \<open>-(adj_matrix.cpu().numpy() + 1.0)\<close>: the matrix is a \<open>float32\<close> array, and so is
  the sum, which is rounded; changing the sign is exact.
\<close>

definition mst_costs :: "fval list list \<Rightarrow> fval list list" where
  "mst_costs adj_matrix = map (map (\<lambda>w. fneg (rounded float32 (fadd w (Fin 1))))) adj_matrix"

text \<open>
  The root picked when none is given: the first node whose greatest distance to another
  node, over the tree with \<open>abs(mst)\<close> as edge lengths, is least.
\<close>

definition select_root :: "nat \<Rightarrow> csgraph \<Rightarrow> error + nat" where
  "select_root n mst =
     (if n = 0 then Inl ValueError
      else argmin (map row_max (dijkstra n (abs_csgraph mst))))"

text \<open>
  The library's \<open>minimum_spanning_tree\<close> is a parameter. With a root outside the
  graph, \<open>tree[root] = -1\<close> is an index error.
\<close>

definition maximum_spanning_tree ::
    "(fval list list \<Rightarrow> csgraph) \<Rightarrow> fval list list \<Rightarrow> nat option
      \<Rightarrow> error + nat list \<times> int list" where
  "maximum_spanning_tree minimum_spanning_tree adj_matrix root_index =
     (let n = length adj_matrix;
          mst = minimum_spanning_tree (mst_costs adj_matrix)
      in bind (case root_index of None \<Rightarrow> select_root n mst | Some r \<Rightarrow> Inr r)
           (\<lambda>r. if r < n
              then (case breadth_first_order n mst r of
                      (bfs, tree) \<Rightarrow> Inr (bfs, tree[r := - 1]))
              else Inl IndexError))"

text \<open>
  Kruskal's algorithm, which is how the library builds its minimum spanning tree: the edges
  by increasing cost, each kept when its ends are in different components. It serves to
  run the tree builder on concrete matrices.
\<close>

fun kruskal_loop :: "csgraph \<Rightarrow> nat list \<Rightarrow> csgraph \<Rightarrow> csgraph" where
  "kruskal_loop [] component kept = kept"
| "kruskal_loop ((i, j, w) # es) component kept =
     (if component ! i = component ! j then kruskal_loop es component kept
      else kruskal_loop es (map (\<lambda>c. if c = component ! j then component ! i else c) component)
             (kept @ [(i, j, w)]))"

definition kruskal :: "fval list list \<Rightarrow> csgraph" where
  "kruskal m =
     (let g = csgraph_from_dense m;
          kept = kruskal_loop (sort_key (\<lambda>(i, j, w). w) g) [0..<length m] []
      in filter (\<lambda>e. e \<in> set kept) g)"

section \<open>The orchestrator\<close>

text \<open>
  The input type is one tag for all columns or a list with one element per column. The
  orchestrator subscripts every element of the list with \<open>'name'\<close> and compares what it
  gets with \<open>categorical\<close>: on a dictionary that is a lookup, which fails with a key
  error when there is no such entry; a string or a boolean cannot be subscripted with a
  string, which is a type error.
\<close>

type_synonym descriptor = "(string \<times> string) list"

datatype layer = Name string | Flag bool | Descriptor descriptor

datatype input_type = Tag string | PerColumn "layer list"

datatype estimator = Heterogeneous | Categorical | Gaussian

datatype 'rg tree_output = Predecessors "int list" | Region_graph 'rg

text \<open>\<open>[input_layers['name'] == "categorical" for input_layers in input_type]\<close>\<close>

fun subscript_name :: "layer \<Rightarrow> error + string" where
  "subscript_name (Name t) = Inl TypeError"
| "subscript_name (Flag b) = Inl TypeError"
| "subscript_name (Descriptor d) =
     (case map_of d ''name'' of None \<Rightarrow> Inl KeyError | Some name \<Rightarrow> Inr name)"

fun is_categorical_mask :: "layer list \<Rightarrow> error + bool list" where
  "is_categorical_mask [] = Inr []"
| "is_categorical_mask (input_layers # rest) =
     bind (subscript_name input_layers)
       (\<lambda>name. bind (is_categorical_mask rest)
          (\<lambda>flags. Inr ((name = ''categorical'') # flags)))"

text \<open>
  \<open>torch.div(data, num_categories // num_bins, rounding_mode="floor")\<close>. The bin width
  is an integer division of Python, which fails when there are zero bins. With a bin width
  of zero the division of the tensor is a floating-point division by zero, which is no
  error: a positive code becomes \<open>inf\<close>, a negative one \<open>-inf\<close> and zero becomes NaN.
\<close>

definition floor_divide :: "real \<Rightarrow> int \<Rightarrow> fval" where
  "floor_divide x w =
     (if w \<noteq> 0 then Fin (real_of_int \<lfloor>x / real_of_int w\<rfloor>)
      else if x = 0 then NaN else if x < 0 then NInf else PInf)"

definition rescale :: "real tensor \<Rightarrow> int \<Rightarrow> int \<Rightarrow> error + fval tensor" where
  "rescale data num_categories num_bins =
     (if num_bins = 0 then Inl ZeroDivisionError
      else Inr \<lparr> ndim = ndim data, n_cols = n_cols data,
                 rows = map (map (\<lambda>x. floor_divide x (num_categories div num_bins)))
                          (rows data) \<rparr>)"

text \<open>
  The first half of the orchestrator: the checks and the choice of the estimator. The
  result comes with the list of the estimators that were started. On a single Gaussian
  column the correlation is a scalar, not a matrix, which the tree builder refuses.
\<close>

definition mutual_info ::
    "real tensor \<Rightarrow> input_type \<Rightarrow> int option \<Rightarrow> nat option \<Rightarrow> int option \<Rightarrow> int option
      \<Rightarrow> estimator list \<times> (error + fval list list)" where
  "mutual_info data input_type root_index chunk_size num_categories num_bins =
     (if ndim data \<noteq> 2 then ([], Inl AssertionError)
      else if \<not> (case root_index of None \<Rightarrow> True | Some r \<Rightarrow> - 1 < r \<and> r < int (n_cols data))
      then ([], Inl AssertionError)
      else
        case input_type of
          PerColumn descriptors \<Rightarrow>
            (case is_categorical_mask descriptors of
               Inl e \<Rightarrow> ([], Inl e)
             | Inr flags \<Rightarrow> ([Heterogeneous], heterogeneous_mutual_info data flags))
        | Tag t \<Rightarrow>
            if t = ''categorical'' then
              (case (case num_bins of
                       None \<Rightarrow> Inr (long data)
                     | Some b \<Rightarrow>
                         (case num_categories of
                            None \<Rightarrow> Inl ValueError
                          | Some k \<Rightarrow> bind (rescale data k b) (\<lambda>data'. Inr (long_fval data')))) of
                 Inl e \<Rightarrow> ([], Inl e)
               | Inr codes \<Rightarrow>
                   ([Categorical],
                    categorical_mutual_info codes (1 / 100) num_categories chunk_size))
            else if t = ''gaussian'' then
              ([Gaussian],
               if n_cols data = 1 then Inl ValueError else Inr (gaussian_mi (corrcoef data)))
            else ([], Inl NotImplementedError))"

text \<open>
  The whole orchestrator; the library's spanning-tree routine and the conversion to a
  region graph are parameters.
\<close>

definition ChowLiuTree ::
    "(fval list list \<Rightarrow> csgraph) \<Rightarrow> (int list \<Rightarrow> 'rg) \<Rightarrow> real tensor \<Rightarrow> input_type
      \<Rightarrow> int option \<Rightarrow> nat option \<Rightarrow> int option \<Rightarrow> int option \<Rightarrow> bool
      \<Rightarrow> estimator list \<times> (error + 'rg tree_output)" where
  "ChowLiuTree minimum_spanning_tree tree2rg data input_type root_index chunk_size
       num_categories num_bins as_region_graph =
     (case mutual_info data input_type root_index chunk_size num_categories num_bins of
        (started, r) \<Rightarrow>
          (started,
           bind r (\<lambda>mi.
             bind (maximum_spanning_tree minimum_spanning_tree mi (map_option nat root_index))
               (\<lambda>(bfs, tree).
                  Inr (if as_region_graph then Region_graph (tree2rg tree)
                       else Predecessors tree)))))"

section \<open>Spanning trees and rooted trees\<close>

text \<open>
  What it means for a sparse graph on the nodes \<open>0..<n\<close> to be a spanning tree: its
  entries join nodes below \<open>n\<close>, every node can be reached from node 0 (by closing
  \<open>[0]\<close> under neighbours \<open>n\<close> times), and it has \<open>n - 1\<close> entries.
\<close>

definition edges_in :: "nat \<Rightarrow> csgraph \<Rightarrow> bool" where
  "edges_in n g \<longleftrightarrow> (\<forall>e \<in> set g. fst e < n \<and> fst (snd e) < n)"

fun closure :: "csgraph \<Rightarrow> nat \<Rightarrow> nat list \<Rightarrow> nat list" where
  "closure g 0 xs = xs"
| "closure g (Suc k) xs = closure g k (remdups (xs @ concat (map (neighbours g) xs)))"

definition graph_connected :: "nat \<Rightarrow> csgraph \<Rightarrow> bool" where
  "graph_connected n g \<longleftrightarrow> (\<forall>v \<in> set [0..<n]. v \<in> set (closure g n [0]))"

definition spanning :: "nat \<Rightarrow> csgraph \<Rightarrow> bool" where
  "spanning n g \<longleftrightarrow> edges_in n g \<and> graph_connected n g \<and> length g = n - 1"

text \<open>Reachability along entries, in either direction.\<close>

inductive reachable :: "csgraph \<Rightarrow> nat \<Rightarrow> nat \<Rightarrow> bool" for g u where
  here: "reachable g u u"
| step: "reachable g u v \<Longrightarrow> w \<in> set (neighbours g v) \<Longrightarrow> reachable g u w"

text \<open>
  The weight of an entry under a matrix is the matrix entry at its row and column; the
  total weight of a graph is the sum over its entries. A matrix of weights is square,
  symmetric, and holds finite numbers that are not negative.
\<close>

definition val :: "fval list list \<Rightarrow> nat \<Rightarrow> nat \<Rightarrow> real" where
  "val m i j = (case m ! i ! j of Fin x \<Rightarrow> x | _ \<Rightarrow> 0)"

definition total :: "fval list list \<Rightarrow> csgraph \<Rightarrow> real" where
  "total m g = sum_list (map (\<lambda>(i, j, w). val m i j) g)"

definition weights :: "nat \<Rightarrow> fval list list \<Rightarrow> bool" where
  "weights n m \<longleftrightarrow>
     length m = n \<and>
     (\<forall>i < n. length (m ! i) = n \<and>
        (\<forall>j < n. \<exists>x. 0 \<le> x \<and> m ! i ! j = Fin x \<and> m ! j ! i = Fin x))"

definition minimum_spanning :: "nat \<Rightarrow> fval list list \<Rightarrow> csgraph \<Rightarrow> bool" where
  "minimum_spanning n m t \<longleftrightarrow>
     spanning n t \<and> (\<forall>s. spanning n s \<longrightarrow> total m t \<le> total m s)"

definition maximum_spanning :: "nat \<Rightarrow> fval list list \<Rightarrow> csgraph \<Rightarrow> bool" where
  "maximum_spanning n m t \<longleftrightarrow>
     spanning n t \<and> (\<forall>s. spanning n s \<longrightarrow> total m s \<le> total m t)"

text \<open>
  What the library documents of its routine, at one matrix: given a connected graph it
  returns a spanning tree, one of least total cost.
\<close>

definition returns_spanning_tree :: "(fval list list \<Rightarrow> csgraph) \<Rightarrow> fval list list \<Rightarrow> bool" where
  "returns_spanning_tree routine m \<longleftrightarrow>
     (graph_connected (length m) (csgraph_from_dense m) \<longrightarrow> spanning (length m) (routine m))"

definition returns_minimum_spanning_tree ::
    "(fval list list \<Rightarrow> csgraph) \<Rightarrow> fval list list \<Rightarrow> bool" where
  "returns_minimum_spanning_tree routine m \<longleftrightarrow>
     (graph_connected (length m) (csgraph_from_dense m) \<longrightarrow>
      minimum_spanning (length m) m (routine m))"

text \<open>
  Following parent links in a predecessor array \<open>k\<close> times; a negative entry has no
  parent.
\<close>

fun ancestor :: "int list \<Rightarrow> nat \<Rightarrow> nat \<Rightarrow> nat option" where
  "ancestor t 0 v = Some v"
| "ancestor t (Suc k) v =
     (if v < length t \<and> 0 \<le> t ! v then ancestor t k (nat (t ! v)) else None)"

text \<open>
  The tree a predecessor array stands for, as a graph: one entry from each parent to its
  child, with its weight; and the undirected edge of an entry.
\<close>

definition tree_graph :: "fval list list \<Rightarrow> int list \<Rightarrow> csgraph" where
  "tree_graph m tree =
     concat (map (\<lambda>v. if 0 \<le> tree ! v then [(nat (tree ! v), v, val m (nat (tree ! v)) v)] else [])
               [0..<length tree])"

definition und :: "nat \<times> nat \<times> real \<Rightarrow> nat set" where
  "und e = {fst e, fst (snd e)}"

text \<open>
  The invariants of the breadth-first loop: the nodes reached so far are distinct, start
  with the root and are exactly the nodes with a predecessor (and the root); each but the
  root has its predecessor earlier in the order; the nodes before position \<open>i\<close> have
  all their neighbours reached; and every predecessor is a neighbour.
\<close>

definition bfs_inv :: "nat \<Rightarrow> nat \<Rightarrow> nat list \<times> int list \<Rightarrow> bool" where
  "bfs_inv n r st \<longleftrightarrow>
     (case st of (nodes, pred) \<Rightarrow>
        length pred = n \<and> nodes \<noteq> [] \<and> nodes ! 0 = r \<and> distinct nodes \<and>
        (\<forall>v \<in> set nodes. v < n) \<and>
        (\<forall>v < n. v \<in> set nodes \<longleftrightarrow> v = r \<or> pred ! v \<noteq> NULL_IDX) \<and>
        pred ! r = NULL_IDX \<and>
        (\<forall>m < length nodes. 0 < m \<longrightarrow> (\<exists>m' < m. pred ! (nodes ! m) = int (nodes ! m'))))"

definition closed_upto :: "csgraph \<Rightarrow> nat \<Rightarrow> nat list \<Rightarrow> bool" where
  "closed_upto g i nodes \<longleftrightarrow> (\<forall>m < i. \<forall>c \<in> set (neighbours g (nodes ! m)). c \<in> set nodes)"

definition parents_adjacent :: "csgraph \<Rightarrow> int list \<Rightarrow> bool" where
  "parents_adjacent g pred \<longleftrightarrow>
     (\<forall>v < length pred. pred ! v \<noteq> NULL_IDX \<longrightarrow>
        0 \<le> pred ! v \<and> v \<in> set (neighbours g (nat (pred ! v))))"

section \<open>The spec's wording, and concrete inputs\<close>

text \<open>
  The root as the specification words it: distances count edges, every edge of the tree
  having length one.
\<close>

definition spec_select_root :: "nat \<Rightarrow> csgraph \<Rightarrow> error + nat" where
  "spec_select_root n mst =
     (if n = 0 then Inl ValueError
      else argmin (map row_max (dijkstra n (map (\<lambda>(i, j, w). (i, j, 1)) mst))))"

text \<open>The number of distinct codes in a data matrix.\<close>

definition distinct_codes :: "'a tensor \<Rightarrow> nat" where
  "distinct_codes d = card (set (concat (rows d)))"

text \<open>One column holding each of the ten codes once.\<close>

definition codes10 :: "real tensor" where
  "codes10 = \<lparr> ndim = 2, n_cols = 1,
      rows = [[0], [1], [2], [3], [4], [5], [6], [7], [8], [9]] \<rparr>"

text \<open>Three samples of two uncorrelated continuous columns.\<close>

definition gauss3 :: "real tensor" where
  "gauss3 = \<lparr> ndim = 2, n_cols = 2, rows = [[- 1, 1], [0, - 2], [1, 1]] \<rparr>"

text \<open>
  Two samples of a continuous column and a discrete column with the codes 0 and 2: the
  code 1 occurs in no sample.
\<close>

definition mixed2 :: "real tensor" where
  "mixed2 = \<lparr> ndim = 2, n_cols = 2, rows = [[0, 0], [1, 2]] \<rparr>"

text \<open>Three samples of two categorical columns.\<close>

definition cat3 :: "int tensor" where
  "cat3 = \<lparr> ndim = 2, n_cols = 2, rows = [[0, 1], [1, 1], [0, 0]] \<rparr>"

text \<open>
  A symmetric matrix of non-negative weights on five nodes, all ten weights different;
  its heaviest spanning tree is the path 0 - 1 - 2 - 3 - 4.
\<close>

definition adj5 :: "fval list list" where
  "adj5 = map (map Fin)
     [[0, 10, 1, 2, 3],
      [10, 0, 20, 4, 5],
      [1, 20, 0, 200, 6],
      [2, 4, 200, 0, 300],
      [3, 5, 6, 300, 0]]"

text \<open>The minimum spanning tree of the costs of \<open>adj5\<close>, as a sparse matrix.\<close>

definition path5 :: csgraph where
  "path5 = [(0, 1, - 11), (1, 2, - 21), (2, 3, - 201), (3, 4, - 301)]"

text \<open>
  The number of samples with code \<open>a\<close> in column \<open>i\<close> and code \<open>b\<close> in column \<open>j\<close>.
\<close>

definition pair_count :: "int list list \<Rightarrow> nat \<Rightarrow> nat \<Rightarrow> nat \<Rightarrow> nat \<Rightarrow> nat" where
  "pair_count rs i j a b = length (filter (\<lambda>r. r ! i = int a \<and> r ! j = int b) rs)"

text \<open>The smoothed estimates of the joint and of the marginal probabilities.\<close>

definition smoothed_joint :: "real \<Rightarrow> int list list \<Rightarrow> nat \<Rightarrow> nat \<Rightarrow> nat \<Rightarrow> nat \<Rightarrow> nat \<Rightarrow> real" where
  "smoothed_joint alpha rs K i j a b =
     (real (pair_count rs i j a b) + alpha) / (real (length rs) + real (K ^ 2) * alpha)"

definition smoothed_marginal :: "real \<Rightarrow> int list list \<Rightarrow> nat \<Rightarrow> nat \<Rightarrow> nat \<Rightarrow> real" where
  "smoothed_marginal alpha rs K i a =
     (real (pair_count rs i i a a) + real K * alpha) / (real (length rs) + real (K ^ 2) * alpha)"

text \<open>A matrix with \<open>F\<close> rows of length \<open>F\<close>.\<close>

definition square :: "nat \<Rightarrow> 'a list list \<Rightarrow> bool" where
  "square F m \<longleftrightarrow> length m = F \<and> (\<forall>k < F. length (m ! k) = F)"


text \<open>
  A symmetric matrix on three nodes whose two heaviest edges, 0 - 1 and 1 - 2, weigh the
  same.
\<close>

definition adj3 :: "fval list list" where
  "adj3 = map (map Fin) [[0, 5, 1], [5, 0, 5], [1, 5, 0]]"

text \<open>
  A symmetric matrix on three nodes with the weights \<open>1 / 2 ^ 30\<close>, \<open>2 / 2 ^ 30\<close> and
  \<open>3 / 2 ^ 30\<close>, all of them \<open>float32\<close> numbers; its heaviest spanning tree is
  0 - 2 - 1. The other spanning tree named here, \<open>star3\<close>, has the edges 0 - 1 and
  0 - 2.
\<close>

definition star3 :: csgraph where
  "star3 = [(0, 1, - 1), (0, 2, - 1)]"

definition tiny3 :: "fval list list" where
  "tiny3 = map (map Fin)
     [[0, 1 / 2 ^ 30, 2 / 2 ^ 30],
      [1 / 2 ^ 30, 0, 3 / 2 ^ 30],
      [2 / 2 ^ 30, 3 / 2 ^ 30, 0]]"

text \<open>A matrix of weights to which one is added without rounding.\<close>

definition shift_exact :: "nat \<Rightarrow> fval list list \<Rightarrow> bool" where
  "shift_exact n m \<longleftrightarrow>
     (\<forall>i < n. \<forall>j < n. \<forall>x. m ! i ! j = Fin x \<longrightarrow> float32 (x + 1) = x + 1)"

section \<open>Evaluation on numerals\<close>

lemmas upt_ev = upt_rec[of _ "numeral _"] upt_rec[of 0] upt_rec[of "Suc _"]

lemma bind_assoc: "bind (bind m f) g = bind m (\<lambda>x. bind (f x) g)"
  by (simp add: bind_def split: sum.splits)

section \<open>Properties of the rounding\<close>

lemma round_even_of_int: "round_even (of_int k) = k"
  by (simp add: round_even_def)

lemma round_even_ge: "of_int k \<le> x \<Longrightarrow> k \<le> round_even x"
proof -
  assume "of_int k \<le> x"
  then have "k \<le> \<lfloor>x\<rfloor>" by (simp add: le_floor_iff)
  then show ?thesis by (simp add: round_even_def Let_def)
qed

lemma round_even_eqI:
  assumes "of_int k - 1 / 2 < x" "x < of_int k + 1 / 2"
  shows "round_even x = k"
proof -
  have "\<lfloor>x\<rfloor> = k \<or> \<lfloor>x\<rfloor> = k - 1" using assms by linarith
  then show ?thesis
  proof
    assume f: "\<lfloor>x\<rfloor> = k"
    then have "x - of_int \<lfloor>x\<rfloor> < 1 / 2" using assms by simp
    then show ?thesis using f by (simp add: round_even_def Let_def)
  next
    assume f: "\<lfloor>x\<rfloor> = k - 1"
    then have "1 / 2 < x - of_int \<lfloor>x\<rfloor>" using assms by simp
    then show ?thesis using f by (simp add: round_even_def Let_def)
  qed
qed

lemma expo_up_bounds:
  "1 \<le> x \<Longrightarrow> 0 \<le> expo_up x \<and> 2 powi (expo_up x) \<le> x \<and> x < 2 powi (expo_up x + 1)"
proof (induction x rule: expo_up.induct)
  case (1 x)
  show ?case
  proof (cases "2 \<le> x")
    case True
    then have "1 \<le> x / 2" by simp
    from 1(1)[OF True this] have ih: "0 \<le> expo_up (x / 2)"
      "2 powi (expo_up (x / 2)) \<le> x / 2" "x / 2 < 2 powi (expo_up (x / 2) + 1)" by simp_all
    have e: "expo_up x = expo_up (x / 2) + 1" using True by (simp add: expo_up.simps[of x])
    have p: "(2::real) powi (expo_up (x / 2) + 1) = 2 * 2 powi (expo_up (x / 2))"
      "(2::real) powi (expo_up (x / 2) + 1 + 1) = 2 * 2 powi (expo_up (x / 2) + 1)"
      by (simp_all add: power_int_add)
    show ?thesis unfolding e using ih p by (simp)
  next
    case False
    then have e: "expo_up x = 0" by (simp add: expo_up.simps[of x])
    show ?thesis unfolding e using False 1(2) by simp
  qed
qed

lemma expo_down_bounds:
  "0 < x \<Longrightarrow> x < 1 \<Longrightarrow> expo_down x < 0 \<and> 2 powi (expo_down x) \<le> x \<and> x < 2 powi (expo_down x + 1)"
proof (induction x rule: expo_down.induct)
  case (1 x)
  have e: "expo_down x = expo_down (2 * x) - 1" using 1(2,3) by (simp add: expo_down.simps[of x])
  show ?case
  proof (cases "2 * x < 1")
    case True
    from 1(1)[OF _ _ True] 1(2,3) have ih: "expo_down (2 * x) < 0"
      "2 powi (expo_down (2 * x)) \<le> 2 * x" "2 * x < 2 powi (expo_down (2 * x) + 1)" by simp_all
    have p: "(2::real) powi (expo_down (2 * x)) = 2 * 2 powi (expo_down (2 * x) - 1)"
      "(2::real) powi (expo_down (2 * x) + 1) = 2 * 2 powi (expo_down (2 * x) - 1 + 1)"
      by (simp_all add: power_int_diff power_int_add)
    show ?thesis unfolding e using ih p by simp
  next
    case False
    then have "expo_down (2 * x) = 0" by (simp add: expo_down.simps[of "2 * x"])
    then have e': "expo_down x = - 1" using e by simp
    show ?thesis unfolding e' using False 1(3) by simp
  qed
qed

lemma expo_bounds:
  assumes "x \<noteq> 0"
  shows "2 powi (expo x) \<le> \<bar>x\<bar>" and "\<bar>x\<bar> < 2 powi (expo x + 1)"
  using assms expo_up_bounds[of "\<bar>x\<bar>"] expo_down_bounds[of "\<bar>x\<bar>"]
  by (auto simp: expo_def)

lemma expo_nonneg: "1 \<le> \<bar>x\<bar> \<Longrightarrow> 0 \<le> expo x"
  using expo_up_bounds[of "\<bar>x\<bar>"] by (simp add: expo_def)

lemma power_int_less_imp_less:
  assumes "(2::real) powi a < 2 powi b"
  shows "a < b"
proof (rule ccontr)
  assume "\<not> a < b"
  then have "b \<le> a" by simp
  then have "(2::real) powi b \<le> 2 powi a" by (rule power_int_increasing) simp
  with assms show False by simp
qed

lemma expo_unique:
  assumes "2 powi e \<le> \<bar>x\<bar>" "\<bar>x\<bar> < 2 powi (e + 1)"
  shows "expo x = e"
proof -
  have "(0::real) < 2 powi e" by (rule zero_less_power_int) simp
  with assms(1) have "0 < \<bar>x\<bar>" by linarith
  then have "x \<noteq> 0" by simp
  note b = expo_bounds[OF this]
  have "(2::real) powi e < 2 powi (expo x + 1)" using assms(1) b(2) by linarith
  then have 1: "e < expo x + 1" by (rule power_int_less_imp_less)
  have "(2::real) powi (expo x) < 2 powi (e + 1)" using assms(2) b(1) by linarith
  then have 2: "expo x < e + 1" by (rule power_int_less_imp_less)
  from 1 2 show ?thesis by simp
qed

lemma round_to_eqI:
  assumes "2 powi e \<le> \<bar>x\<bar>" "\<bar>x\<bar> < 2 powi (e + 1)"
      and "of_int k - 1 / 2 < x / 2 powi (e - int p + 1)"
      and "x / 2 powi (e - int p + 1) < of_int k + 1 / 2"
  shows "round_to p x = of_int k * 2 powi (e - int p + 1)"
  using expo_unique[OF assms(1,2)] round_even_eqI[OF assms(3,4)]
  by (simp add: round_to_def Let_def)

lemma round_to_ge_one:
  assumes "1 \<le> x" "0 < p"
  shows "1 \<le> round_to p x"
proof -
  let ?e = "expo x"
  let ?u = "(2::real) powi (?e - int p + 1)"
  have x0: "x \<noteq> 0" "\<bar>x\<bar> = x" using assms by simp_all
  have e: "0 \<le> ?e" using expo_nonneg[of x] assms by simp
  have u: "0 < ?u" by simp
  have lo: "2 powi ?e \<le> x" using expo_bounds(1)[OF x0(1)] x0(2) by simp
  have "(2::real) powi ?e = 2 powi (int p - 1) * ?u"
    by (simp add: power_int_add[symmetric])
  also have "(2::real) powi (int p - 1) = of_int (2 ^ (p - 1))"
    using assms(2) by (simp add: power_int_def nat_diff_distrib')
  finally have split: "(2::real) powi ?e = of_int (2 ^ (p - 1)) * ?u" .
  have "of_int (2 ^ (p - 1)) \<le> x / ?u" using lo u unfolding split by (simp add: field_simps)
  then have "2 ^ (p - 1) \<le> round_even (x / ?u)" by (rule round_even_ge)
  then have "of_int (2 ^ (p - 1)) * ?u \<le> real_of_int (round_even (x / ?u)) * ?u"
    using u by (simp only: mult_le_cancel_right_pos of_int_le_iff)
  then have "2 powi ?e \<le> round_to p x" unfolding split by (simp add: round_to_def Let_def)
  moreover have "(1::real) \<le> 2 powi ?e" using e by (simp add: one_le_power_int)
  ultimately show ?thesis by linarith
qed

lemma float32_ge_one: "1 \<le> x \<Longrightarrow> 1 \<le> float32 x"
  by (simp add: float32_def round_to_ge_one)

section \<open>Chunking of the count accumulation\<close>

lemma concat_chunks: "concat (map (\<lambda>k. take c (drop (k * c) xs)) [0..<m]) = take (m * c) xs"
proof (induction m)
  case 0
  then show ?case by simp
next
  case (Suc m)
  have "take (m * c) xs @ take c (drop (m * c) xs) = take (m * c + c) xs"
    by (simp add: take_add)
  with Suc show ?case by (simp add: add.commute)
qed

lemma concat_split:
  assumes "split c xs = Inr chunks"
  shows "concat chunks = xs" and "chunks \<noteq> []"
proof -
  show "concat chunks = xs"
  proof (cases "c = 0")
    case True
    with assms show ?thesis by (auto simp: split_def split: if_splits)
  next
    case False
    let ?m = "max 1 ((length xs + c - 1) div c)"
    have "length xs \<le> ?m * c"
    proof -
      have "length xs + c - 1 < ((length xs + c - 1) div c) * c + c"
        using False by (metis add.commute bot_nat_0.not_eq_extremum div_mult_mod_eq
            mod_less_divisor nat_add_left_cancel_less mult.commute)
      then have "length xs \<le> ((length xs + c - 1) div c) * c" using False by linarith
      also have "\<dots> \<le> ?m * c" by simp
      finally show ?thesis .
    qed
    moreover from assms False
    have "chunks = map (\<lambda>k. take c (drop (k * c) xs)) [0..<?m]"
      by (simp add: split_def)
    ultimately show ?thesis by (simp only: concat_chunks take_all)
  qed
  show "chunks \<noteq> []" using assms by (auto simp: split_def split: if_splits)
qed

lemma scatter_add_append:
  "scatter_add F K (a @ b) jc =
     (case scatter_add F K a jc of Inl e \<Rightarrow> Inl e | Inr jc' \<Rightarrow> scatter_add F K b jc')"
  by (auto simp: scatter_add_def joint_values_def scatter_ones_def)

lemma accumulate_concat:
  "accumulate F K (c # cs) jc = scatter_add F K (concat (c # cs)) jc"
proof (induction cs arbitrary: c jc)
  case Nil
  then show ?case by (simp split: sum.splits)
next
  case (Cons c' cs)
  show ?case
    using Cons.IH by (simp add: scatter_add_append split: sum.splits)
qed

lemma accumulate_split:
  assumes "0 < c \<or> xs = []"
  shows "bind (split c xs) (\<lambda>chunks. accumulate F K chunks jc) = scatter_add F K xs jc"
proof -
  from assms have "\<exists>chunks. split c xs = Inr chunks"
    by (cases "c = 0") (simp_all add: split_def)
  then obtain chunks where s: "split c xs = Inr chunks" ..
  from concat_split[OF s] obtain ch rest where c: "chunks = ch # rest" and cc: "concat chunks = xs"
    by (cases chunks) auto
  show ?thesis using accumulate_concat[of F K ch rest jc] c cc s by (simp add: bind_def)
qed

lemma categorical_unchunked:
  assumes "chunk_size \<noteq> Some 0"
  shows "categorical_mutual_info data alpha num_categories chunk_size =
         categorical_mutual_info data alpha num_categories None"
proof -
  have a: "0 < (case chunk_size of None \<Rightarrow> length (rows data) | Some c \<Rightarrow> c) \<or> rows data = []"
    using assms by (cases chunk_size) auto
  have b: "0 < (case None of None \<Rightarrow> length (rows data) | Some c \<Rightarrow> c) \<or> rows data = []"
    by auto
  show ?thesis
    unfolding categorical_mutual_info_def Let_def bind_assoc[symmetric]
    by (simp only: accumulate_split[OF a] accumulate_split[OF b])
qed

text \<open>
  C5. The categorical mutual information does not depend on the chunk size: any two
  chunk sizes (a positive number of rows, or none given) return the same result, errors
  included. In particular one row per chunk gives what all rows in one chunk give.
\<close>

theorem chunk_size_irrelevant:
  assumes "c1 \<noteq> Some 0" and "c2 \<noteq> Some 0"
  shows "categorical_mutual_info data alpha num_categories c1 =
         categorical_mutual_info data alpha num_categories c2"
  using categorical_unchunked[OF assms(1)] categorical_unchunked[OF assms(2)] by simp

theorem chunk_size_irrelevant_witness:
  "Some (1::nat) \<noteq> Some 0 \<and> Some (length (rows cat3)) \<noteq> Some 0 \<and>
   categorical_mutual_info cat3 (1 / 100) None (Some 1) =
   categorical_mutual_info cat3 (1 / 100) None (Some (length (rows cat3)))"
proof -
  have h1: "Some (1::nat) \<noteq> Some 0" by simp
  have h2: "Some (length (rows cat3)) \<noteq> Some 0" by (simp add: cat3_def)
  show ?thesis using h1 h2 chunk_size_irrelevant[OF h1 h2] by blast
qed

section \<open>Rescaling into bins\<close>

text \<open>
  C8. With ten categories and four bins the bin width is \<open>10 div 4 = 2\<close>, and the ten
  codes are rescaled to the five codes 0 to 4: more than the four bins asked for.
\<close>

theorem rescale_exceeds_num_bins:
  "rescale codes10 10 4 =
     Inr \<lparr> ndim = 2, n_cols = 1,
           rows = map (map Fin) [[0], [0], [1], [1], [2], [2], [3], [3], [4], [4]] \<rparr> \<and>
   distinct_codes \<lparr> ndim = 2, n_cols = 1,
           rows = map (map Fin) [[0], [0], [1], [1], [2], [2], [3], [3], [4], [4]] \<rparr> = 5"
  by (simp add: rescale_def floor_divide_def codes10_def distinct_codes_def)

section \<open>The diagonal on the Gaussian path\<close>

lemma cov_gauss3: "cov gauss3 = [[Fin 1, Fin 0], [Fin 0, Fin 3]]"
  by (simp add: cov_def gauss3_def mean_def column_def fsum_def fsub_def upt_ev)

lemma corrcoef_gauss3: "corrcoef gauss3 = [[Fin 1, Fin 0], [Fin 0, Fin 1]]"
proof -
  have n: "n_cols gauss3 = 2" by (simp add: gauss3_def)
  show ?thesis by (simp add: corrcoef_def cov_gauss3 Let_def n upt_ev real_div_sqrt)
qed

lemma mutual_info_gauss3:
  "mutual_info gauss3 (Tag ''gaussian'') None chunk_size num_categories num_bins =
   ([Gaussian], Inr [[PInf, Fin 0], [Fin 0, PInf]])"
proof -
  have n: "n_cols gauss3 = 2" "ndim gauss3 = 2" by (simp_all add: gauss3_def)
  show ?thesis by (simp add: mutual_info_def corrcoef_gauss3 gaussian_mi_def fsub_def n)
qed

text \<open>
  C1. On the single-tag Gaussian path the matrix handed to the tree builder keeps the
  value \<open>-0.5 * log(1 - 1)\<close> on its diagonal, which is infinite, not zero.
\<close>

theorem gaussian_diagonal_not_zero:
  "mutual_info gauss3 (Tag ''gaussian'') None None None None =
   ([Gaussian], Inr [[PInf, Fin 0], [Fin 0, PInf]])"
  by (rule mutual_info_gauss3)

section \<open>An empty category in the heterogeneous estimator\<close>

text \<open>
  C2. The discrete column of \<open>mixed2\<close> has three categories, the middle one without
  samples. The variance over no samples is NaN, and the NaN reaches the result although
  the category has probability zero.
\<close>

theorem empty_category_gives_nan:
  "heterogeneous_mutual_info mixed2 [False, True] = Inr [[Fin 0, NaN], [NaN, Fin 0]]"
  by (simp add: heterogeneous_mutual_info_def continuous_block_def discrete_block_def
      precompute_def cross_checks_def bind_def check_index_def column_def long_of_def
      upt_ev cross_loop_def set2_def cross_mi_def h_C_given_D_def p_D_def
      num_categories_of_def restrict_to_def gaussian_entropy_def var_def mean_def fsum_def
      fsub_def fill_diagonal_def mixed2_def numeral_2_eq_2)

section \<open>Validation in the orchestrator\<close>

text \<open>
  C10. The orchestrator documents a value error whenever a number of bins is given without
  a number of categories, but checks it on the single-tag categorical path only. On the
  Gaussian path the number of bins is not looked at: with four bins and no number of
  categories the Gaussian estimator is started and returns its matrix.
\<close>

theorem num_bins_ignored_on_gaussian_path:
  "mutual_info gauss3 (Tag ''gaussian'') None None None (Some 4) =
   ([Gaussian], Inr [[PInf, Fin 0], [Fin 0, PInf]])"
  by (rule mutual_info_gauss3)

text \<open>
  What the orchestrator does refuse before any estimator is started: data that is not
  two-dimensional and a root outside the columns, with an assertion error on every path,
  and a number of bins without a number of categories on the single-tag categorical path,
  with a value error.
\<close>

lemma refused_before_any_estimator:
  assumes "ndim data \<noteq> 2
         \<or> (\<exists>r. root_index = Some r \<and> \<not> (- 1 < r \<and> r < int (n_cols data)))
         \<or> (input_type = Tag ''categorical'' \<and> num_bins \<noteq> None \<and> num_categories = None)"
  shows "ChowLiuTree minimum_spanning_tree tree2rg data input_type root_index chunk_size
           num_categories num_bins as_region_graph =
         ([], Inl (if ndim data \<noteq> 2
                      \<or> (\<exists>r. root_index = Some r \<and> \<not> (- 1 < r \<and> r < int (n_cols data)))
                   then AssertionError else ValueError))"
  using assms
  by (auto simp: ChowLiuTree_def mutual_info_def bind_def split: option.splits)

section \<open>The per-column input type\<close>

lemma is_categorical_mask_named:
  assumes "\<forall>l \<in> set layers. \<exists>d name. l = Descriptor d \<and> map_of d ''name'' = Some name"
  shows "is_categorical_mask layers =
         Inr (map (\<lambda>l. subscript_name l = Inr ''categorical'') layers)"
  using assms by (induction layers) (auto simp: bind_def)

text \<open>
  C9, as stated, fails: given one tag per column, or one boolean flag per column, the
  orchestrator fails with a type error while it builds the mask, and no estimator is
  started.
\<close>

theorem per_column_tags_are_a_type_error:
  "mutual_info mixed2 (PerColumn [Name ''gaussian'', Name ''categorical'']) None None None None =
     ([], Inl TypeError) \<and>
   mutual_info mixed2 (PerColumn [Flag False, Flag True]) None None None None =
     ([], Inl TypeError)"
  by (simp add: mutual_info_def mixed2_def bind_def)

text \<open>
  C9, amended. Given a list with one dictionary per column, each with an entry
  \<open>name\<close>, data with two dimensions and a valid root, the orchestrator starts the
  heterogeneous estimator, and only it, on the whole data, with the mask that marks a
  column exactly when the name in its dictionary is \<open>categorical\<close>.
\<close>

theorem per_column_list_runs_heterogeneous:
  assumes "ndim data = 2"
      and "case root_index of None \<Rightarrow> True | Some r \<Rightarrow> - 1 < r \<and> r < int (n_cols data)"
      and "\<forall>l \<in> set layers. \<exists>d name. l = Descriptor d \<and> map_of d ''name'' = Some name"
  shows "mutual_info data (PerColumn layers) root_index chunk_size num_categories num_bins =
         ([Heterogeneous],
          heterogeneous_mutual_info data
            (map (\<lambda>l. subscript_name l = Inr ''categorical'') layers))"
  using assms by (simp add: mutual_info_def is_categorical_mask_named)

theorem per_column_list_runs_heterogeneous_witness:
  "ndim mixed2 = 2 \<and>
   mutual_info mixed2
     (PerColumn [Descriptor [(''name'', ''gaussian'')], Descriptor [(''name'', ''categorical'')]])
     None None None None =
   ([Heterogeneous], heterogeneous_mutual_info mixed2 [False, True])"
proof -
  have h1: "ndim mixed2 = 2" by (simp add: mixed2_def)
  have h2: "case None of None \<Rightarrow> True | Some r \<Rightarrow> - 1 < r \<and> r < int (n_cols mixed2)" by simp
  have h3: "\<forall>l \<in> set [Descriptor [(''name'', ''gaussian'')],
                      Descriptor [(''name'', ''categorical'')]].
      \<exists>d name. l = Descriptor d \<and> map_of d ''name'' = Some name" by simp
  show ?thesis
    using h1 per_column_list_runs_heterogeneous[OF h1 h2 h3, of None None None] by simp
qed

section \<open>The root picked by the tree builder\<close>

lemma kruskal_adj5: "kruskal (mst_costs adj5) = path5"
  unfolding path5_def by code_simp

lemma abs_path5: "abs_csgraph path5 = [(0, 1, 11), (1, 2, 21), (2, 3, 201), (3, 4, 301)]"
  by (simp add: abs_csgraph_def path5_def)

lemma dijkstra_path5:
  "dijkstra 5 [(0, 1, 11), (1, 2, 21), (2, 3, 201), (3, 4, 301)] =
    [[Fin 0, Fin 11, Fin 32, Fin 233, Fin 534],
     [Fin 11, Fin 0, Fin 21, Fin 222, Fin 523],
     [Fin 32, Fin 21, Fin 0, Fin 201, Fin 502],
     [Fin 233, Fin 222, Fin 201, Fin 0, Fin 301],
     [Fin 534, Fin 523, Fin 502, Fin 301, Fin 0]]"
  by (simp add: dijkstra_def relax_def upt_ev fmin_def eval_nat_numeral)

lemma select_root_path5: "select_root 5 path5 = Inr 3"
  unfolding select_root_def abs_path5 dijkstra_path5
  by (simp add: row_max_def fmax_def argmin_def)

lemma unit_path5:
  "map (\<lambda>(i, j, w). (i, j, 1)) path5 = [(0, 1, 1), (1, 2, 1), (2, 3, 1), (3, 4, 1::real)]"
  by (simp add: path5_def)

lemma dijkstra_unit_path5:
  "dijkstra 5 [(0, 1, 1), (1, 2, 1), (2, 3, 1), (3, 4, 1)] =
    [[Fin 0, Fin 1, Fin 2, Fin 3, Fin 4],
     [Fin 1, Fin 0, Fin 1, Fin 2, Fin 3],
     [Fin 2, Fin 1, Fin 0, Fin 1, Fin 2],
     [Fin 3, Fin 2, Fin 1, Fin 0, Fin 1],
     [Fin 4, Fin 3, Fin 2, Fin 1, Fin 0]]"
  by (simp add: dijkstra_def relax_def upt_ev fmin_def eval_nat_numeral)

lemma spec_select_root_path5: "spec_select_root 5 path5 = Inr 2"
  unfolding spec_select_root_def unit_path5 dijkstra_unit_path5
  by (simp add: row_max_def fmax_def argmin_def)

lemma row_max_unit_path5:
  "map row_max (dijkstra 5 (map (\<lambda>(i, j, w). (i, j, 1)) path5)) =
     [Fin 4, Fin 3, Fin 2, Fin 3, Fin 4]"
  unfolding unit_path5 dijkstra_unit_path5
  by (simp add: row_max_def fmax_def)

lemma breadth_first_order_path5:
  "breadth_first_order 5 path5 3 = ([3, 4, 2, 1, 0], [1, 2, 3, - 9999, 3])"
  by (simp add: breadth_first_order_def bfs_loop.simps path5_def neighbours_def visit_def
      NULL_IDX_def eval_nat_numeral)

text \<open>
  C7. On \<open>adj5\<close> the spanning tree is the path 0 - 1 - 2 - 3 - 4. The tree builder
  roots it at node 3, which is three edges away from node 0, while node 2 is at most two
  edges away from every node: the distances the builder minimises are sums of the edge
  lengths \<open>weight + 1\<close>, not numbers of edges.
\<close>

theorem root_minimises_weighted_distance:
  "maximum_spanning_tree kruskal adj5 None = Inr ([3, 4, 2, 1, 0], [1, 2, 3, - 1, 3]) \<and>
   spec_select_root 5 (kruskal (mst_costs adj5)) = Inr 2 \<and>
   map row_max (dijkstra 5 (map (\<lambda>(i, j, w). (i, j, 1)) (kruskal (mst_costs adj5)))) =
     [Fin 4, Fin 3, Fin 2, Fin 3, Fin 4]"
proof -
  have n: "length adj5 = 5" by (simp add: adj5_def)
  have "maximum_spanning_tree kruskal adj5 None = Inr ([3, 4, 2, 1, 0], [1, 2, 3, - 1, 3])"
    by (simp add: maximum_spanning_tree_def n kruskal_adj5 select_root_path5 bind_def
        breadth_first_order_path5)
  then show ?thesis
    by (simp only: kruskal_adj5 spec_select_root_path5 row_max_unit_path5 simp_thms)
qed

section \<open>Non-negativity of the categorical mutual information\<close>



lemma fsum_Fin: "fsum (map (\<lambda>x. Fin (f x)) xs) = Fin (sum_list (map f xs))"
proof -
  have "foldl fadd (Fin s) (map (\<lambda>x. Fin (f x)) xs) = Fin (s + sum_list (map f xs))" for s
    by (induction xs arbitrary: s) (simp_all add: add.assoc)
  from this[of 0] show ?thesis by (simp add: fsum_def)
qed

lemma scatter_ones_length: "length (scatter_ones idxs cnt) = length cnt"
  unfolding scatter_ones_def by (induction idxs arbitrary: cnt) simp_all

lemma scatter_ones_nth:
  assumes "\<forall>v \<in> set idxs. 0 \<le> v \<and> v < int (length cnt)" and "m < length cnt"
  shows "scatter_ones idxs cnt ! m = cnt ! m + int (count_list idxs (int m))"
  using assms unfolding scatter_ones_def
proof (induction idxs arbitrary: cnt)
  case Nil
  then show ?case by simp
next
  case (Cons v vs)
  have v: "0 \<le> v" "nat v < length cnt" using Cons.prems by auto
  have "fold (\<lambda>v c. c[nat v := c ! nat v + 1]) vs (cnt[nat v := cnt ! nat v + 1]) ! m =
        cnt[nat v := cnt ! nat v + 1] ! m + int (count_list vs (int m))"
    using Cons.prems by (intro Cons.IH) simp_all
  moreover have "cnt[nat v := cnt ! nat v + 1] ! m = cnt ! m + (if v = int m then 1 else 0)"
    using v Cons.prems(2) by (auto simp: nth_list_update)
  ultimately show ?case by simp
qed

lemma count_list_map_filter: "count_list (map f xs) y = length (filter (\<lambda>x. f x = y) xs)"
  by (induction xs) simp_all

lemma joint_index_unique:
  fixes x y :: int and a b K :: nat
  assumes "0 \<le> x" "x < int K" "0 \<le> y" "y < int K" "a < K" "b < K"
  shows "x * int K + y = int (a * K + b) \<longleftrightarrow> x = int a \<and> y = int b"
proof
  assume e: "x * int K + y = int (a * K + b)"
  have "(x * int K + y) div int K = x" using assms by simp
  moreover have "int (a * K + b) div int K = int a"
    using assms by (simp add: zdiv_int[symmetric] del: of_nat_add of_nat_mult)
  moreover have "(x * int K + y) mod int K = y" using assms by simp
  moreover have "int (a * K + b) mod int K = int b"
    using assms by (simp add: zmod_int[symmetric] del: of_nat_add of_nat_mult)
  ultimately show "x = int a \<and> y = int b" using e by metis
next
  assume "x = int a \<and> y = int b"
  then show "x * int K + y = int (a * K + b)" by simp
qed


lemma code_in_range:
  fixes x :: int
  assumes "0 \<le> x * int K + x" "x * int K + x < int (K * K)"
  shows "0 \<le> x \<and> x < int K"
proof -
  have e: "x * int K + x = x * (int K + 1)" by (simp add: algebra_simps)
  have "0 \<le> x"
  proof (rule ccontr)
    assume "\<not> 0 \<le> x"
    then have "x \<le> - 1" by simp
    then have "x * (int K + 1) \<le> - 1 * (int K + 1)" by (intro mult_right_mono) simp_all
    with assms(1) e show False by simp
  qed
  moreover have "x < int K"
  proof (rule ccontr)
    assume "\<not> x < int K"
    then have "int K \<le> x" by simp
    then have "int K * (int K + 1) \<le> x * (int K + 1)" by (intro mult_right_mono) simp_all
    with assms(2) e show False by (simp add: algebra_simps)
  qed
  ultimately show ?thesis ..
qed

lemma scatter_add_valid:
  assumes "scatter_add F K rs jc0 = Inr jc" and "r \<in> set rs" and "i < F"
  shows "0 \<le> r ! i \<and> r ! i < int K"
proof -
  from assms(1) have "\<forall>i \<in> set [0..<F]. \<forall>j \<in> set [0..<F]. \<forall>v \<in> set (joint_values K rs i j).
           0 \<le> v \<and> v < int (K * K)"
    by (simp add: scatter_add_def split: if_splits)
  with assms(2,3) have "0 \<le> r ! i * int K + r ! i \<and> r ! i * int K + r ! i < int (K * K)"
    by (auto simp: joint_values_def)
  then show ?thesis using code_in_range by blast
qed

lemma scatter_add_counts:
  assumes s: "scatter_add F K rs (zeros3 F (K * K)) = Inr jc"
      and "i < F" "j < F" "a < K" "b < K"
  shows "jc ! i ! j ! (a * K + b) = int (pair_count rs i j a b)"
proof -
  from s have ok: "\<forall>i \<in> set [0..<F]. \<forall>j \<in> set [0..<F]. \<forall>v \<in> set (joint_values K rs i j).
           0 \<le> v \<and> v < int (K * K)"
    and jc: "jc = map (\<lambda>i. map (\<lambda>j. scatter_ones (joint_values K rs i j)
                 (zeros3 F (K * K) ! i ! j)) [0..<F]) [0..<F]"
    by (auto simp: scatter_add_def split: if_splits)
  have m: "a * K + b < K * K"
  proof -
    have "Suc a \<le> K" using assms by simp
    then have "Suc a * K \<le> K * K" by (rule mult_le_mono1)
    moreover have "a * K + b < Suc a * K" using assms by simp
    ultimately show ?thesis by linarith
  qed
  have z: "zeros3 F (K * K) ! i ! j = replicate (K * K) 0"
    using assms by (simp add: zeros3_def)
  have "jc ! i ! j = scatter_ones (joint_values K rs i j) (replicate (K * K) 0)"
    using assms jc z by simp
  moreover have "scatter_ones (joint_values K rs i j) (replicate (K * K) 0) ! (a * K + b) =
      replicate (K * K) 0 ! (a * K + b) + int (count_list (joint_values K rs i j) (int (a * K + b)))"
    using ok assms m by (intro scatter_ones_nth) simp_all
  moreover have "count_list (joint_values K rs i j) (int (a * K + b)) = pair_count rs i j a b"
  proof -
    have "filter (\<lambda>r. r ! i * int K + r ! j = int (a * K + b)) rs =
          filter (\<lambda>r. r ! i = int a \<and> r ! j = int b) rs"
    proof (rule filter_cong[OF refl])
      fix r assume r: "r \<in> set rs"
      have "0 \<le> r ! i \<and> r ! i < int K" "0 \<le> r ! j \<and> r ! j < int K"
        using scatter_add_valid[OF s r] assms by simp_all
      then show "(r ! i * int K + r ! j = int (a * K + b)) = (r ! i = int a \<and> r ! j = int b)"
        using joint_index_unique[of "r ! i" K "r ! j" a b] assms by simp
    qed
    then show ?thesis
      by (simp add: joint_values_def count_list_map_filter pair_count_def)
  qed
  ultimately show ?thesis using m by simp
qed

lemma sum_list_upt: "sum_list (map f [0..<K]) = (\<Sum>a<K. f a)"
  by (simp add: interv_sum_list_conv_sum_set_nat atLeast0LessThan)





lemma smoothing_denominator:
  assumes "0 < alpha" "0 < K"
  shows "0 < real N + real (K ^ 2) * alpha"
  using assms by (intro add_nonneg_pos mult_pos_pos) simp_all

lemma smoothed_joint_pos:
  assumes "0 < alpha" "0 < K"
  shows "0 < smoothed_joint alpha rs K i j a b"
  unfolding smoothed_joint_def
  using assms smoothing_denominator[OF assms] by (intro divide_pos_pos add_nonneg_pos) simp_all

lemma smoothed_marginal_pos:
  assumes "0 < alpha" "0 < K"
  shows "0 < smoothed_marginal alpha rs K i a"
  unfolding smoothed_marginal_def
  using assms smoothing_denominator[OF assms]
  by (intro divide_pos_pos add_nonneg_pos mult_pos_pos) simp_all

lemma mi_from_counts_entry:
  assumes alpha: "0 < alpha"
      and s: "scatter_add F K rs (zeros3 F (K * K)) = Inr jc"
      and i: "i < F" and j: "j < F" and ij: "i \<noteq> j" and K: "0 < K"
  shows "mi_from_counts alpha (length rs) F K jc ! i ! j =
      Fin (\<Sum>a<K. \<Sum>b<K. smoothed_joint alpha rs K i j a b *
             (ln (smoothed_joint alpha rs K i j a b) -
              ln (smoothed_marginal alpha rs K i a * smoothed_marginal alpha rs K j b)))"
proof -
  let ?J = "smoothed_joint alpha rs K i j"
  let ?P = "smoothed_marginal alpha rs K i"
  let ?Q = "smoothed_marginal alpha rs K j"
  have D: "real (length rs) + real (K ^ 2) * alpha \<noteq> 0"
    using smoothing_denominator[OF alpha K, of "length rs"] by simp
  have marg_i: "marginals alpha (length rs) F K jc ! i ! a = Fin (?P a)" if "a < K" for a
    using that i D scatter_add_counts[OF s i i that that]
    by (simp add: marginals_def smoothed_marginal_def)
  have marg_j: "marginals alpha (length rs) F K jc ! j ! b = Fin (?Q b)" if "b < K" for b
    using that j D scatter_add_counts[OF s j j that that]
    by (simp add: marginals_def smoothed_marginal_def)
  have joint: "joints alpha (length rs) F K jc ! i ! j ! a ! b = Fin (?J a b)"
    if "a < K" "b < K" for a b
    using that i j ij D scatter_add_counts[OF s i j that]
    by (simp add: joints_def smoothed_joint_def)
  have outer: "outers F K (marginals alpha (length rs) F K jc) ! i ! j ! a ! b = Fin (?P a * ?Q b)"
    if "a < K" "b < K" for a b
    using that i j marg_i marg_j by (simp add: outers_def)
  have Jpos: "0 < ?J a b" for a b by (rule smoothed_joint_pos[OF alpha K])
  have PQpos: "0 < ?P a * ?Q b" for a b
    by (intro mult_pos_pos smoothed_marginal_pos[OF alpha K])
  have inner: "map (\<lambda>b. fmul (joints alpha (length rs) F K jc ! i ! j ! a ! b)
           (fsub (flog (joints alpha (length rs) F K jc ! i ! j ! a ! b))
                 (flog (outers F K (marginals alpha (length rs) F K jc) ! i ! j ! a ! b))))
         [0..<K] =
        map (\<lambda>b. Fin (?J a b * (ln (?J a b) - ln (?P a * ?Q b)))) [0..<K]" if "a < K" for a
    using that Jpos PQpos by (intro map_cong refl) (simp add: joint outer fsub_def)
  have outer_map: "map (\<lambda>a. fsum (map (\<lambda>b. fmul (joints alpha (length rs) F K jc ! i ! j ! a ! b)
           (fsub (flog (joints alpha (length rs) F K jc ! i ! j ! a ! b))
                 (flog (outers F K (marginals alpha (length rs) F K jc) ! i ! j ! a ! b))))
         [0..<K])) [0..<K] =
      map (\<lambda>a. fsum (map (\<lambda>b. Fin (?J a b * (ln (?J a b) - ln (?P a * ?Q b)))) [0..<K]))
        [0..<K]"
    by (rule map_cong[OF refl]) (simp only: inner set_upt atLeastLessThan_iff)
  have "mi_from_counts alpha (length rs) F K jc ! i ! j =
      fsum (map (\<lambda>a. fsum (map (\<lambda>b. fmul (joints alpha (length rs) F K jc ! i ! j ! a ! b)
           (fsub (flog (joints alpha (length rs) F K jc ! i ! j ! a ! b))
                 (flog (outers F K (marginals alpha (length rs) F K jc) ! i ! j ! a ! b))))
         [0..<K])) [0..<K])"
    using i j ij by (simp add: mi_from_counts_def Let_def)
  then have "mi_from_counts alpha (length rs) F K jc ! i ! j =
      fsum (map (\<lambda>a. fsum (map (\<lambda>b. Fin (?J a b * (ln (?J a b) - ln (?P a * ?Q b)))) [0..<K]))
             [0..<K])"
    by (simp only: outer_map)
  then show ?thesis by (simp add: fsum_Fin sum_list_upt)
qed


lemma split_accumulate:
  assumes "split c xs = Inr chunks"
  shows "accumulate F K chunks jc = scatter_add F K xs jc"
proof -
  from concat_split[OF assms] obtain ch rest where "chunks = ch # rest" "concat chunks = xs"
    by (cases chunks) auto
  then show ?thesis using accumulate_concat[of F K ch rest jc] by simp
qed

lemma categorical_mutual_info_Inr:
  assumes "categorical_mutual_info data alpha num_categories chunk_size = Inr mi"
  shows "\<exists>K jc. scatter_add (n_cols data) K (rows data) (zeros3 (n_cols data) (K * K)) = Inr jc \<and>
           mi = mi_from_counts alpha (length (rows data)) (n_cols data) K jc"
proof -
  let ?k = "case num_categories of None \<Rightarrow> infer_num_categories (rows data) | Some k \<Rightarrow> Inr k"
  let ?c = "case chunk_size of None \<Rightarrow> length (rows data) | Some c \<Rightarrow> c"
  from assms have nd: "ndim data = 2"
    by (simp add: categorical_mutual_info_def split: if_splits)
  from assms nd obtain k where kk: "?k = Inr k"
    by (cases ?k) (simp_all add: categorical_mutual_info_def bind_def)
  from assms nd kk have k: "0 \<le> k"
    by (simp add: categorical_mutual_info_def bind_def Let_def split: if_splits)
  from assms nd kk k obtain chunks where sp: "split ?c (rows data) = Inr chunks"
    by (cases "split ?c (rows data)") (simp_all add: categorical_mutual_info_def bind_def Let_def)
  from assms nd kk k sp obtain jc where
    acc: "accumulate (n_cols data) (nat k) chunks (zeros3 (n_cols data) (nat k * nat k)) = Inr jc"
    by (cases "accumulate (n_cols data) (nat k) chunks (zeros3 (n_cols data) (nat k * nat k))")
       (simp_all add: categorical_mutual_info_def bind_def Let_def)
  from assms nd kk k sp acc
  have mi: "mi = mi_from_counts alpha (length (rows data)) (n_cols data) (nat k) jc"
    by (simp add: categorical_mutual_info_def bind_def Let_def)
  from acc split_accumulate[OF sp] show ?thesis using mi by metis
qed







section \<open>Symmetry and the diagonal of the categorical and the heterogeneous matrix\<close>

lemma pair_count_swap: "pair_count rs i j a b = pair_count rs j i b a"
  unfolding pair_count_def by (rule arg_cong[where f = length], rule filter_cong) auto

lemma mi_from_counts_symmetric:
  assumes alpha: "0 < alpha"
      and s: "scatter_add F K rs (zeros3 F (K * K)) = Inr jc"
      and i: "i < F" and j: "j < F"
  shows "mi_from_counts alpha (length rs) F K jc ! i ! j =
         mi_from_counts alpha (length rs) F K jc ! j ! i"
proof (cases "i = j \<or> K = 0")
  case True
  then show ?thesis using i j by (auto simp: mi_from_counts_def Let_def fsum_def)
next
  case False
  then have ij: "i \<noteq> j" "j \<noteq> i" and K: "0 < K" by auto
  have sw: "smoothed_joint alpha rs K j i b a = smoothed_joint alpha rs K i j a b" for a b
    by (simp add: smoothed_joint_def pair_count_swap[of rs j i b a])
  have "(\<Sum>b<K. \<Sum>a<K. smoothed_joint alpha rs K j i b a *
             (ln (smoothed_joint alpha rs K j i b a) -
              ln (smoothed_marginal alpha rs K j b * smoothed_marginal alpha rs K i a))) =
        (\<Sum>a<K. \<Sum>b<K. smoothed_joint alpha rs K i j a b *
             (ln (smoothed_joint alpha rs K i j a b) -
              ln (smoothed_marginal alpha rs K i a * smoothed_marginal alpha rs K j b)))"
    unfolding sw by (subst sum.swap) (simp add: mult.commute)
  then show ?thesis
    using mi_from_counts_entry[OF alpha s i j ij(1) K]
      mi_from_counts_entry[OF alpha s j i ij(2) K] by simp
qed

lemma categorical_symmetric_zero_diagonal:
  assumes "0 < alpha"
      and "categorical_mutual_info data alpha num_categories chunk_size = Inr mi"
      and "i < n_cols data" and "j < n_cols data"
  shows "mi ! i ! j = mi ! j ! i" and "mi ! i ! i = Fin 0"
proof -
  from categorical_mutual_info_Inr[OF assms(2)] obtain K jc where
    s: "scatter_add (n_cols data) K (rows data) (zeros3 (n_cols data) (K * K)) = Inr jc"
    and mi: "mi = mi_from_counts alpha (length (rows data)) (n_cols data) K jc" by blast
  show "mi ! i ! j = mi ! j ! i"
    unfolding mi by (rule mi_from_counts_symmetric[OF assms(1) s assms(3,4)])
  show "mi ! i ! i = Fin 0" using assms(3) by (simp add: mi mi_from_counts_def Let_def)
qed

lemma bind_InrE:
  assumes "bind m f = Inr y"
  obtains x where "m = Inr x" and "f x = Inr y"
  using assms by (cases m) (simp_all add: bind_def)

lemma square_set2: "square F m \<Longrightarrow> square F (set2 m i j v)"
  unfolding square_def set2_def
proof (intro conjI allI impI)
  assume a: "length m = F \<and> (\<forall>k<F. length (m ! k) = F)"
  show "length (m[i := (m ! i)[j := v]]) = F" using a by simp
  fix k assume "k < F"
  then show "length (m[i := (m ! i)[j := v]] ! k) = F"
    using a by (cases "k = i") simp_all
qed

lemma square_fold:
  assumes "\<And>x m. square F m \<Longrightarrow> square F (f x m)" and "square F m"
  shows "square F (fold f xs m)"
  using assms(2) by (induction xs arbitrary: m) (simp_all add: assms(1))

lemma square_assign_block: "square F m \<Longrightarrow> square F (assign_block m idxs blk)"
  unfolding assign_block_def by (intro square_fold square_set2)

lemma square_cross_loop: "square F m \<Longrightarrow> square F (cross_loop data cs ds m)"
  unfolding cross_loop_def Let_def by (intro square_fold square_set2)

lemma fill_diagonal_nth:
  assumes "square F m" "i < F"
  shows "fill_diagonal v m ! i ! i = v"
  using assms by (simp add: fill_diagonal_def square_def)

lemma square_continuous_block:
  assumes "continuous_block data cs m = Inr m'" and "square F m"
  shows "square F m'"
  using assms
  by (auto simp: continuous_block_def check_index_def split: if_splits
      intro: square_assign_block)

lemma square_discrete_block:
  assumes "discrete_block data ds m = Inr m'" and "square F m"
  shows "square F m'"
proof (cases "1 < length ds")
  case False
  then show ?thesis using assms by (simp add: discrete_block_def)
next
  case True
  with assms(1) obtain blk where "m' = assign_block m ds blk"
    unfolding discrete_block_def by (auto elim!: bind_InrE)
  then show ?thesis using assms(2) by (simp add: square_assign_block)
qed

lemma heterogeneous_zero_diagonal:
  assumes "heterogeneous_mutual_info data flags = Inr mi" and "i < n_cols data"
  shows "mi ! i ! i = Fin 0"
proof -
  let ?F = "n_cols data"
  let ?C = "filter (\<lambda>i. \<not> flags ! i) [0..<length flags]"
  let ?D = "filter (\<lambda>i. flags ! i) [0..<length flags]"
  have z: "square ?F (replicate ?F (replicate ?F (Fin 0 :: fval)))" by (simp add: square_def)
  from assms(1) obtain m1 m2 where
    s1: "continuous_block data ?C (replicate ?F (replicate ?F (Fin 0))) = Inr m1"
    and s2: "discrete_block data ?D m1 = Inr m2"
    and mi: "mi = fill_diagonal (Fin 0) (cross_loop data ?C ?D m2)"
    unfolding heterogeneous_mutual_info_def Let_def by (auto elim!: bind_InrE)
  have "square ?F m2"
    by (rule square_discrete_block[OF s2 square_continuous_block[OF s1 z]])
  then have "square ?F (cross_loop data ?C ?D m2)" by (rule square_cross_loop)
  then show ?thesis unfolding mi using assms(2) by (rule fill_diagonal_nth)
qed

section \<open>Reachability in a connected graph\<close>

lemma neighbours_iff:
  "v \<in> set (neighbours g u) \<longleftrightarrow> (\<exists>w. (u, v, w) \<in> set g \<or> (v, u, w) \<in> set g)"
  by (force simp: neighbours_def)

lemma neighbours_sym: "v \<in> set (neighbours g u) \<Longrightarrow> u \<in> set (neighbours g v)"
  by (auto simp: neighbours_iff)

lemma neighbours_in:
  assumes "edges_in n g" "v \<in> set (neighbours g u)"
  shows "v < n"
  using assms by (force simp: neighbours_iff edges_in_def)

lemma reachable_trans: "reachable g v w \<Longrightarrow> reachable g u v \<Longrightarrow> reachable g u w"
  by (induction rule: reachable.induct) (auto intro: reachable.step)

lemma reachable_sym: "reachable g u v \<Longrightarrow> reachable g v u"
proof (induction rule: reachable.induct)
  case here
  show ?case by (rule reachable.here)
next
  case (step v w)
  have "reachable g w v"
    using reachable.step[OF reachable.here neighbours_sym[OF step.hyps(2)]] .
  with step.IH show ?case by (rule reachable_trans)
qed

lemma closure_reachable:
  assumes "\<forall>x \<in> set xs. reachable g s x"
  shows "\<forall>x \<in> set (closure g k xs). reachable g s x"
  using assms
proof (induction k arbitrary: xs)
  case 0
  then show ?case by simp
next
  case (Suc k)
  have "\<forall>x \<in> set (remdups (xs @ concat (map (neighbours g) xs))). reachable g s x"
  proof
    fix x assume "x \<in> set (remdups (xs @ concat (map (neighbours g) xs)))"
    then consider "x \<in> set xs" | y where "y \<in> set xs" "x \<in> set (neighbours g y)" by auto
    then show "reachable g s x"
    proof cases
      case 1
      then show ?thesis using Suc.prems by simp
    next
      case 2
      then have "reachable g s y" using Suc.prems by simp
      then show ?thesis using 2(2) by (rule reachable.step)
    qed
  qed
  from Suc.IH[OF this] show ?case by simp
qed

lemma graph_connected_reachable:
  assumes "graph_connected n g" "r < n" "v < n"
  shows "reachable g r v"
proof -
  have all: "\<forall>x \<in> set (closure g n [0]). reachable g 0 x"
    by (rule closure_reachable) (simp add: reachable.here)
  have "reachable g 0 r" "reachable g 0 v"
    using assms all by (auto simp: graph_connected_def)
  then have "reachable g 0 v" "reachable g r 0" by (simp_all add: reachable_sym)
  then show ?thesis by (rule reachable_trans)
qed

lemma closure_mono: "set xs \<subseteq> set (closure g k xs)"
proof (induction k arbitrary: xs)
  case 0
  show ?case by simp
next
  case (Suc k)
  have "set xs \<subseteq> set (remdups (xs @ concat (map (neighbours g) xs)))" by auto
  also have "\<dots> \<subseteq> set (closure g k (remdups (xs @ concat (map (neighbours g) xs))))"
    by (rule Suc.IH)
  finally show ?case by simp
qed

lemma csgraph_from_dense_mem:
  "(i, j, x) \<in> set (csgraph_from_dense m) \<longleftrightarrow>
     i < length m \<and> j < length m \<and> m ! i ! j = Fin x \<and> x \<noteq> 0"
  by (auto simp: csgraph_from_dense_def split: fval.splits if_splits)

section \<open>The breadth-first order\<close>

lemma bfs_invD:
  assumes "bfs_inv n r (nodes, pred)"
  shows "length pred = n" and "nodes \<noteq> []" and "nodes ! 0 = r" and "distinct nodes"
    and "\<And>v. v \<in> set nodes \<Longrightarrow> v < n"
    and "\<And>v. v < n \<Longrightarrow> v \<in> set nodes \<longleftrightarrow> v = r \<or> pred ! v \<noteq> NULL_IDX"
    and "pred ! r = NULL_IDX"
    and "\<And>m. m < length nodes \<Longrightarrow> 0 < m \<Longrightarrow> \<exists>m' < m. pred ! (nodes ! m) = int (nodes ! m')"
  using assms by (auto simp: bfs_inv_def)

lemma visit_prefix: "\<exists>ys. fst (visit r p c st) = fst st @ ys"
  by (cases st) (simp add: visit_def)

lemma visit_inv:
  assumes inv: "bfs_inv n r st" and i: "i < length (fst st)" and p: "p = fst st ! i"
  shows "bfs_inv n r (visit r p c st)"
proof (cases st)
  case (Pair nodes pred)
  note inv' = inv[unfolded Pair bfs_inv_def, simplified]
  show ?thesis
  proof (cases "c < length pred \<and> c \<noteq> r \<and> pred ! c = NULL_IDX")
    case False
    then show ?thesis using inv Pair by (auto simp: visit_def)
  next
    case True
    have len: "length pred = n" and ne: "nodes \<noteq> []" and hd: "nodes ! 0 = r"
      and dist: "distinct nodes" and bound: "\<forall>v \<in> set nodes. v < n"
      and mem: "\<forall>v < n. v \<in> set nodes \<longleftrightarrow> v = r \<or> pred ! v \<noteq> NULL_IDX"
      and root: "pred ! r = NULL_IDX"
      and par: "\<forall>m < length nodes. 0 < m \<longrightarrow> (\<exists>m' < m. pred ! (nodes ! m) = int (nodes ! m'))"
      using inv' by auto
    have cn: "c < n" using True len by simp
    have cnot: "c \<notin> set nodes" using mem cn True by auto
    have il: "i < length nodes" using i Pair by simp
    have v: "visit r p c st = (nodes @ [c], pred[c := int p])"
      using True Pair by (simp add: visit_def)
    have pnull: "int p \<noteq> NULL_IDX" by (simp add: NULL_IDX_def)
    have mem': "\<forall>v < n. v \<in> set (nodes @ [c]) \<longleftrightarrow> v = r \<or> pred[c := int p] ! v \<noteq> NULL_IDX"
      using mem len pnull True by (auto simp: nth_list_update)
    have par': "\<forall>m < length (nodes @ [c]). 0 < m \<longrightarrow>
        (\<exists>m' < m. pred[c := int p] ! ((nodes @ [c]) ! m) = int ((nodes @ [c]) ! m'))"
    proof (intro allI impI)
      fix m assume m: "m < length (nodes @ [c])" "0 < m"
      show "\<exists>m' < m. pred[c := int p] ! ((nodes @ [c]) ! m) = int ((nodes @ [c]) ! m')"
      proof (cases "m < length nodes")
        case True
        then obtain m' where m': "m' < m" "pred ! (nodes ! m) = int (nodes ! m')"
          using par m by blast
        have "nodes ! m \<noteq> c" using True cnot by (metis nth_mem)
        then have "pred[c := int p] ! ((nodes @ [c]) ! m) = int ((nodes @ [c]) ! m')"
          using True m' by (simp add: nth_append)
        then show ?thesis using m' by blast
      next
        case False
        then have meq: "m = length nodes" using m by simp
        have "pred[c := int p] ! ((nodes @ [c]) ! m) = int ((nodes @ [c]) ! i)"
          using meq il cn len p Pair by (simp add: nth_append)
        then show ?thesis using il meq by blast
      qed
    qed
    have "bfs_inv n r (nodes @ [c], pred[c := int p])"
      unfolding bfs_inv_def
      using len ne hd dist bound cn cnot root True mem' par'
      by (simp add: nth_append)
    then show ?thesis using v by simp
  qed
qed

lemma visit_member:
  assumes inv: "bfs_inv n r st" and c: "c < n"
  shows "c \<in> set (fst (visit r p c st))"
proof (cases st)
  case (Pair nodes pred)
  note inv' = inv[unfolded Pair bfs_inv_def, simplified]
  show ?thesis
  proof (cases "c < length pred \<and> c \<noteq> r \<and> pred ! c = NULL_IDX")
    case True
    then show ?thesis using Pair by (simp add: visit_def)
  next
    case False
    then have "c = r \<or> pred ! c \<noteq> NULL_IDX" using inv' c by auto
    then have "c \<in> set nodes" using inv' c by blast
    then show ?thesis using False Pair by (simp add: visit_def)
  qed
qed

lemma fold_visit_inv:
  assumes "bfs_inv n r st" and "i < length (fst st)" and "p = fst st ! i"
  shows "bfs_inv n r (fold (visit r p) cs st) \<and>
         (\<exists>ys. fst (fold (visit r p) cs st) = fst st @ ys) \<and>
         (\<forall>c \<in> set cs. c < n \<longrightarrow> c \<in> set (fst (fold (visit r p) cs st)))"
  using assms
proof (induction cs arbitrary: st)
  case Nil
  then show ?case by simp
next
  case (Cons c cs)
  let ?st1 = "visit r p c st"
  obtain ys where ys: "fst ?st1 = fst st @ ys" using visit_prefix by blast
  have inv1: "bfs_inv n r ?st1" using Cons.prems by (rule visit_inv)
  have i1: "i < length (fst ?st1)" using Cons.prems(2) ys by simp
  have p1: "p = fst ?st1 ! i" using Cons.prems(2,3) ys by (simp add: nth_append)
  note IH = Cons.IH[OF inv1 i1 p1]
  from IH obtain zs where zs: "fst (fold (visit r p) cs ?st1) = fst ?st1 @ zs" by blast
  have "c < n \<longrightarrow> c \<in> set (fst (fold (visit r p) cs ?st1))"
    using visit_member[OF Cons.prems(1), of c p] zs by auto
  then show ?case using IH ys zs by auto
qed

lemma bfs_loop_inv:
  assumes "edges_in n g" and "bfs_inv n r st" and "i \<le> length (fst st)"
      and "closed_upto g i (fst st)"
  shows "bfs_inv n r (bfs_loop g r i st) \<and>
         closed_upto g (length (fst (bfs_loop g r i st))) (fst (bfs_loop g r i st))"
  using assms
proof (induction g r i st rule: bfs_loop.induct)
  case (1 g r i st)
  show ?case
  proof (cases "i < length (fst st)")
    case False
    then have i: "i = length (fst st)" using "1.prems"(3) by simp
    have "bfs_loop g r i st = st" using False by (simp add: bfs_loop.simps[of g r i st])
    then show ?thesis using "1.prems" i by simp
  next
    case True
    let ?p = "fst st ! i"
    let ?st' = "fold (visit r ?p) (neighbours g ?p) st"
    from fold_visit_inv[OF "1.prems"(2) True refl, of "neighbours g ?p"]
    obtain ys where inv': "bfs_inv n r ?st'" and ys: "fst ?st' = fst st @ ys"
      and nb: "\<forall>c \<in> set (neighbours g ?p). c < n \<longrightarrow> c \<in> set (fst ?st')"
      by blast
    have le': "Suc i \<le> length (fst ?st')" using True ys by simp
    have closed': "closed_upto g (Suc i) (fst ?st')"
      unfolding closed_upto_def
    proof (intro allI impI ballI)
      fix m c assume m: "m < Suc i" and c: "c \<in> set (neighbours g (fst ?st' ! m))"
      have eq: "fst ?st' ! m = fst st ! m" using m True ys by (simp add: nth_append)
      show "c \<in> set (fst ?st')"
      proof (cases "m = i")
        case True
        then show ?thesis using nb c eq neighbours_in[OF "1.prems"(1)] by auto
      next
        case False
        then have "m < i" using m by simp
        then have "c \<in> set (fst st)" using "1.prems"(4) c eq by (auto simp: closed_upto_def)
        then show ?thesis using ys by simp
      qed
    qed
    have "bfs_loop g r i st = bfs_loop g r (Suc i) ?st'"
      using True by (simp add: bfs_loop.simps[of g r i st])
    with "1.IH"[OF True "1.prems"(1) inv' le' closed'] show ?thesis by simp
  qed
qed

lemma bfs_inv_init:
  assumes "r < n"
  shows "bfs_inv n r ([r], replicate n NULL_IDX)"
  using assms by (auto simp: bfs_inv_def)

lemma breadth_first_order_inv:
  assumes "edges_in n g" and "r < n"
  shows "bfs_inv n r (breadth_first_order n g r)"
    and "closed_upto g (length (fst (breadth_first_order n g r))) (fst (breadth_first_order n g r))"
  using bfs_loop_inv[OF assms(1) bfs_inv_init[OF assms(2)], of 0]
  by (simp_all add: breadth_first_order_def closed_upto_def)

lemma breadth_first_order_reaches:
  assumes "edges_in n g" and "r < n" and "reachable g r v"
  shows "v \<in> set (fst (breadth_first_order n g r))"
  using assms(3)
proof (induction rule: reachable.induct)
  case (here)
  have "bfs_inv n r (breadth_first_order n g r)"
    by (rule breadth_first_order_inv(1)[OF assms(1,2)])
  then show ?case
    by (cases "breadth_first_order n g r") (auto simp: bfs_inv_def in_set_conv_nth)
next
  case (step v w)
  then obtain m where "m < length (fst (breadth_first_order n g r))"
    "fst (breadth_first_order n g r) ! m = v" by (auto simp: in_set_conv_nth)
  then show ?case
    using breadth_first_order_inv(2)[OF assms(1,2)] step.hyps(2) by (auto simp: closed_upto_def)
qed

lemma visit_parents_adjacent:
  assumes "parents_adjacent g (snd st)" and "c \<in> set (neighbours g p)"
  shows "parents_adjacent g (snd (visit r p c st))"
proof (cases st)
  case (Pair nodes pred)
  show ?thesis
  proof (cases "c < length pred \<and> c \<noteq> r \<and> pred ! c = NULL_IDX")
    case False
    then show ?thesis using assms Pair by (auto simp: visit_def)
  next
    case True
    then have "snd (visit r p c st) = pred[c := int p]" using Pair by (simp add: visit_def)
    moreover have "parents_adjacent g (pred[c := int p])"
      using assms Pair True by (auto simp: parents_adjacent_def nth_list_update)
    ultimately show ?thesis by simp
  qed
qed

lemma fold_visit_parents_adjacent:
  assumes "parents_adjacent g (snd st)" and "set cs \<subseteq> set (neighbours g p)"
  shows "parents_adjacent g (snd (fold (visit r p) cs st))"
  using assms
proof (induction cs arbitrary: st)
  case Nil
  then show ?case by simp
next
  case (Cons c cs)
  have "parents_adjacent g (snd (visit r p c st))"
    using Cons.prems by (intro visit_parents_adjacent) auto
  then show ?case using Cons.IH Cons.prems(2) by simp
qed

lemma bfs_loop_parents_adjacent:
  assumes "parents_adjacent g (snd st)"
  shows "parents_adjacent g (snd (bfs_loop g r i st))"
  using assms
proof (induction g r i st rule: bfs_loop.induct)
  case (1 g r i st)
  show ?case
  proof (cases "i < length (fst st)")
    case False
    then have "bfs_loop g r i st = st" by (simp add: bfs_loop.simps[of g r i st])
    then show ?thesis using "1.prems" by simp
  next
    case True
    let ?st' = "fold (visit r (fst st ! i)) (neighbours g (fst st ! i)) st"
    have "parents_adjacent g (snd ?st')"
      using "1.prems" by (rule fold_visit_parents_adjacent) simp
    from "1.IH"[OF True this] have "parents_adjacent g (snd (bfs_loop g r (Suc i) ?st'))" .
    moreover have "bfs_loop g r i st = bfs_loop g r (Suc i) ?st'"
      using True by (simp add: bfs_loop.simps[of g r i st])
    ultimately show ?thesis by simp
  qed
qed

section \<open>The predecessor array\<close>

lemma argmin_from_bound: "b < k \<Longrightarrow> argmin_from xs k (b, v) < k + length xs"
proof (induction xs arbitrary: k b v)
  case Nil
  then show ?case by simp
next
  case (Cons a xs)
  have "b < Suc k" using Cons.prems by simp
  then have "argmin_from xs (Suc k) (b, v) < Suc k + length xs" by (rule Cons.IH)
  moreover have "argmin_from xs (Suc k) (k, a) < Suc k + length xs"
    by (rule Cons.IH) simp
  ultimately show ?case by simp
qed

lemma select_root_bound:
  assumes "0 < n"
  shows "\<exists>r < n. select_root n g = Inr r"
proof -
  have "length (map row_max (dijkstra n (abs_csgraph g))) = n" by (simp add: dijkstra_def)
  then obtain x rest where xs: "map row_max (dijkstra n (abs_csgraph g)) = x # rest"
    and len: "length rest = n - 1"
    using assms by (cases "map row_max (dijkstra n (abs_csgraph g))") auto
  have "argmin_from rest 1 (0, x) < 1 + length rest" by (rule argmin_from_bound) simp
  then show ?thesis using assms xs len by (simp add: select_root_def argmin_def)
qed

lemma distinct_bounded_length:
  assumes "distinct xs" "\<forall>x \<in> set xs. x < n"
  shows "length xs \<le> n"
proof -
  have "card (set xs) \<le> card {..<n}" using assms(2) by (intro card_mono) auto
  then show ?thesis using assms(1) by (simp add: distinct_card)
qed

lemma tree_parent:
  assumes inv: "bfs_inv n r (nodes, pred)" and m: "m < length nodes" "0 < m"
  shows "\<exists>m' < m. (pred[r := - 1]) ! (nodes ! m) = int (nodes ! m') \<and> nodes ! m \<noteq> r
           \<and> nodes ! m < length (pred[r := - 1])"
proof -
  note d = bfs_invD[OF inv]
  from d(8)[OF m] obtain m' where m': "m' < m" "pred ! (nodes ! m) = int (nodes ! m')" by blast
  have "0 < length nodes" using d(2) by simp
  then have "nodes ! m \<noteq> nodes ! 0" using d(4) m by (simp add: nth_eq_iff_index_eq)
  then have ne: "nodes ! m \<noteq> r" using d(3) by simp
  have "nodes ! m < n" using d(5) m(1) by simp
  then show ?thesis using m' ne d(1) by auto
qed

lemma tree_reaches_root:
  assumes inv: "bfs_inv n r (nodes, pred)" and m: "m < length nodes"
  shows "\<exists>k \<le> m. ancestor (pred[r := - 1]) k (nodes ! m) = Some r"
  using m
proof (induction m rule: less_induct)
  case (less m)
  show ?case
  proof (cases "m = 0")
    case True
    have "nodes ! 0 = r" using bfs_invD(3)[OF inv] .
    then have "ancestor (pred[r := - 1]) 0 (nodes ! m) = Some r" using True by simp
    then show ?thesis by blast
  next
    case False
    then obtain m' where m': "m' < m"
      "(pred[r := - 1]) ! (nodes ! m) = int (nodes ! m')"
      "nodes ! m < length (pred[r := - 1])"
      using tree_parent[OF inv less.prems] by blast
    from less.IH[OF m'(1)] m'(1) less.prems obtain k where
      k: "k \<le> m'" "ancestor (pred[r := - 1]) k (nodes ! m') = Some r" by auto
    have "ancestor (pred[r := - 1]) (Suc k) (nodes ! m) = Some r"
      using m'(2,3) k(2) by simp
    moreover have "Suc k \<le> m" using k(1) m'(1) by simp
    ultimately show ?thesis by blast
  qed
qed

lemma tree_ancestor_earlier:
  assumes inv: "bfs_inv n r (nodes, pred)" and "m < length nodes"
      and "ancestor (pred[r := - 1]) k (nodes ! m) = Some x"
  shows "\<exists>m'. x = nodes ! m' \<and> m' + k \<le> m"
  using assms(2,3)
proof (induction k arbitrary: m)
  case 0
  then show ?case by auto
next
  case (Suc k)
  note d = bfs_invD[OF inv]
  have rn: "r < n" using d(2,3,5) by (metis nth_mem length_greater_0_conv)
  from Suc.prems(2) have nonneg: "0 \<le> (pred[r := - 1]) ! (nodes ! m)"
    and anc: "ancestor (pred[r := - 1]) k (nat ((pred[r := - 1]) ! (nodes ! m))) = Some x"
    by (auto split: if_splits)
  have "nodes ! m \<noteq> r" using nonneg d(1) rn by auto
  then have "0 < m" using d(3) by (cases m) auto
  from tree_parent[OF inv Suc.prems(1) this] obtain m' where
    m': "m' < m" "(pred[r := - 1]) ! (nodes ! m) = int (nodes ! m')" by blast
  have "ancestor (pred[r := - 1]) k (nodes ! m') = Some x" using anc m'(2) by simp
  from Suc.IH[OF _ this] m'(1) Suc.prems(1) obtain m'' where
    "x = nodes ! m''" "m'' + k \<le> m'" by auto
  then show ?case using m'(1) by (intro exI[of _ m'']) simp
qed

lemma breadth_first_order_tree:
  assumes g: "edges_in n g" "graph_connected n g" and r: "r < n"
      and bfs: "breadth_first_order n g r = (nodes, pred)"
  shows "length (pred[r := - 1]) = n"
    and "\<forall>v < n. (pred[r := - 1]) ! v = - 1 \<longleftrightarrow> v = r"
    and "\<forall>v < n. \<exists>k \<le> n - 1. ancestor (pred[r := - 1]) k v = Some r"
    and "\<forall>v < n. \<forall>k. 0 < k \<longrightarrow> ancestor (pred[r := - 1]) k v \<noteq> Some v"
proof -
  have inv: "bfs_inv n r (nodes, pred)"
    using breadth_first_order_inv(1)[OF g(1) r] bfs by simp
  note d = bfs_invD[OF inv]
  have all: "v \<in> set nodes" if "v < n" for v
    using breadth_first_order_reaches[OF g(1) r graph_connected_reachable[OF g(2) r that]] bfs by simp
  have len: "length nodes \<le> n" using d(4,5) by (intro distinct_bounded_length) auto
  show "length (pred[r := - 1]) = n" using d(1) by simp
  show "\<forall>v < n. (pred[r := - 1]) ! v = - 1 \<longleftrightarrow> v = r"
  proof (intro allI impI)
    fix v assume v: "v < n"
    show "(pred[r := - 1]) ! v = - 1 \<longleftrightarrow> v = r"
    proof (cases "v = r")
      case True
      then show ?thesis using d(1) v by simp
    next
      case False
      from all[OF v] obtain m where m: "m < length nodes" "nodes ! m = v"
        by (auto simp: in_set_conv_nth)
      then have "0 < m" using False d(3) by (cases m) auto
      from tree_parent[OF inv m(1) this] m(2) False show ?thesis by auto
    qed
  qed
  show "\<forall>v < n. \<exists>k \<le> n - 1. ancestor (pred[r := - 1]) k v = Some r"
  proof (intro allI impI)
    fix v assume v: "v < n"
    from all[OF v] obtain m where m: "m < length nodes" "nodes ! m = v"
      by (auto simp: in_set_conv_nth)
    from tree_reaches_root[OF inv m(1)] m(2) obtain k where
      "k \<le> m" "ancestor (pred[r := - 1]) k v = Some r" by auto
    moreover have "m \<le> n - 1" using m(1) len by simp
    ultimately show "\<exists>k \<le> n - 1. ancestor (pred[r := - 1]) k v = Some r"
      by (intro exI[of _ k]) simp
  qed
  show "\<forall>v < n. \<forall>k. 0 < k \<longrightarrow> ancestor (pred[r := - 1]) k v \<noteq> Some v"
  proof (intro allI impI notI)
    fix v k assume v: "v < n" and k: "0 < k" and a: "ancestor (pred[r := - 1]) k v = Some v"
    from all[OF v] obtain m where m: "m < length nodes" "nodes ! m = v"
      by (auto simp: in_set_conv_nth)
    from tree_ancestor_earlier[OF inv m(1)] a m(2) obtain m' where
      m': "v = nodes ! m'" "m' + k \<le> m" by blast
    then have "m' < m" "m' < length nodes" using k m(1) by simp_all
    then show False using m' m d(4) by (simp add: nth_eq_iff_index_eq)
  qed
qed

lemma breadth_first_order_parents:
  assumes g: "edges_in n g" "graph_connected n g" and r: "r < n"
      and bfs: "breadth_first_order n g r = (nodes, pred)"
      and v: "v < n" "v \<noteq> r"
  shows "0 \<le> (pred[r := - 1]) ! v" and "nat ((pred[r := - 1]) ! v) < n"
    and "v \<in> set (neighbours g (nat ((pred[r := - 1]) ! v)))"
proof -
  have inv: "bfs_inv n r (nodes, pred)"
    using breadth_first_order_inv(1)[OF g(1) r] bfs by simp
  note d = bfs_invD[OF inv]
  have "parents_adjacent g (snd (breadth_first_order n g r))"
    unfolding breadth_first_order_def
    by (rule bfs_loop_parents_adjacent) (simp add: parents_adjacent_def)
  then have pa: "parents_adjacent g pred" using bfs by simp
  have "v \<in> set nodes"
    using breadth_first_order_reaches[OF g(1) r graph_connected_reachable[OF g(2) r v(1)]] bfs
    by simp
  then have nn: "pred ! v \<noteq> NULL_IDX" using d(6)[OF v(1)] v(2) by simp
  then have a: "0 \<le> pred ! v" "v \<in> set (neighbours g (nat (pred ! v)))"
    using pa v(1) d(1) by (auto simp: parents_adjacent_def)
  have e: "(pred[r := - 1]) ! v = pred ! v" using v(2) by simp
  show "0 \<le> (pred[r := - 1]) ! v" using a e by simp
  show "v \<in> set (neighbours g (nat ((pred[r := - 1]) ! v)))" using a e by simp
  have "nat (pred ! v) \<in> set (neighbours g v)" using a(2) by (rule neighbours_sym)
  then show "nat ((pred[r := - 1]) ! v) < n" using neighbours_in[OF g(1)] e by simp
qed

section \<open>From least cost to greatest weight\<close>

lemma mst_costs_entry:
  assumes "weights n adj" "i < n" "j < n"
  shows "\<exists>x. 0 \<le> x \<and> adj ! i ! j = Fin x \<and> mst_costs adj ! i ! j = Fin (- float32 (x + 1))"
proof -
  from assms obtain x where "0 \<le> x" "adj ! i ! j = Fin x" and "length adj = n" "length (adj ! i) = n"
    unfolding weights_def by blast
  then show ?thesis using assms(2,3) by (auto simp: mst_costs_def)
qed

lemma mst_costs_negative:
  assumes "weights n adj" "i < n" "j < n"
  shows "\<exists>c. mst_costs adj ! i ! j = Fin c \<and> c \<le> - 1"
proof -
  from mst_costs_entry[OF assms] obtain x where
    x: "0 \<le> x" "mst_costs adj ! i ! j = Fin (- float32 (x + 1))" by blast
  have "1 \<le> float32 (x + 1)" using x(1) by (intro float32_ge_one) simp
  with x(2) show ?thesis by simp
qed

lemma mst_costs_val:
  assumes "weights n adj" "shift_exact n adj" "i < n" "j < n"
  shows "val (mst_costs adj) i j = - (val adj i j + 1)"
proof -
  from mst_costs_entry[OF assms(1,3,4)] obtain x where
    x: "adj ! i ! j = Fin x" "mst_costs adj ! i ! j = Fin (- float32 (x + 1))" by blast
  have "float32 (x + 1) = x + 1" using assms(2,3,4) x(1) by (simp add: shift_exact_def)
  with x show ?thesis by (simp add: val_def)
qed

lemma total_mst_costs:
  assumes "weights n adj" "shift_exact n adj" "edges_in n s"
  shows "total (mst_costs adj) s = - total adj s - real (length s)"
  using assms(3)
proof (induction s)
  case Nil
  then show ?case by (simp add: total_def)
next
  case (Cons e s)
  obtain i j w where e: "e = (i, j, w)" by (cases e)
  have ij: "i < n" "j < n" and rest: "edges_in n s"
    using Cons.prems e by (auto simp: edges_in_def)
  have "total (mst_costs adj) (e # s) = val (mst_costs adj) i j + total (mst_costs adj) s"
    by (simp add: total_def e)
  also have "\<dots> = - (val adj i j + 1) + (- total adj s - real (length s))"
    using mst_costs_val[OF assms(1,2) ij] Cons.IH[OF rest] by simp
  also have "\<dots> = - total adj (e # s) - real (length (e # s))"
    by (simp add: total_def e)
  finally show ?case .
qed

lemma minimum_costs_maximum_weights:
  assumes w: "weights n adj" and x: "shift_exact n adj"
      and m: "minimum_spanning n (mst_costs adj) t"
  shows "maximum_spanning n adj t"
proof -
  have t: "spanning n t" using m by (simp add: minimum_spanning_def)
  have "total adj s \<le> total adj t" if s: "spanning n s" for s
  proof -
    have "total (mst_costs adj) t \<le> total (mst_costs adj) s"
      using m s by (simp add: minimum_spanning_def)
    moreover have "total (mst_costs adj) t = - total adj t - real (n - 1)"
      using total_mst_costs[OF w x] t by (simp add: spanning_def)
    moreover have "total (mst_costs adj) s = - total adj s - real (n - 1)"
      using total_mst_costs[OF w x] s by (simp add: spanning_def)
    ultimately show ?thesis by simp
  qed
  then show ?thesis using t by (simp add: maximum_spanning_def)
qed

lemma length_mst_costs: "length (mst_costs adj) = length adj"
  by (simp add: mst_costs_def)

lemma cost_graph_connected:
  assumes "weights n adj"
  shows "graph_connected n (csgraph_from_dense (mst_costs adj))"
  unfolding graph_connected_def
proof
  fix v assume "v \<in> set [0..<n]"
  then have v: "v < n" by simp
  then obtain k where n: "n = Suc k" by (cases n) auto
  let ?g = "csgraph_from_dense (mst_costs adj)"
  have len: "length (mst_costs adj) = n" using assms by (simp add: mst_costs_def weights_def)
  from mst_costs_negative[OF assms _ v, of 0] v obtain c where
    "c \<le> - 1" "mst_costs adj ! 0 ! v = Fin c" by auto
  then have "(0, v, c) \<in> set ?g" using v len by (simp add: csgraph_from_dense_mem)
  then have "v \<in> set (neighbours ?g 0)" by (auto simp: neighbours_iff)
  then have "v \<in> set (remdups ([0] @ concat (map (neighbours ?g) [0])))" by simp
  then have "v \<in> set (closure ?g k (remdups ([0] @ concat (map (neighbours ?g) [0]))))"
    using closure_mono by blast
  then show "v \<in> set (closure ?g n [0])" by (simp add: n)
qed

section \<open>The edges of the rooted tree\<close>

lemma val_sym:
  assumes "weights n m" "i < n" "j < n"
  shows "val m i j = val m j i"
proof -
  from assms obtain x where "m ! i ! j = Fin x" "m ! j ! i = Fin x"
    unfolding weights_def by blast
  then show ?thesis by (simp add: val_def)
qed

lemma val_und:
  assumes "weights n m" "i < n" "j < n"
  shows "val m i j = val m (Min {i, j}) (Max {i, j})"
proof (cases "i \<le> j")
  case True
  then show ?thesis by (simp add: min_def max_def)
next
  case False
  then have "val m (Min {i, j}) (Max {i, j}) = val m j i" by (simp add: min_def max_def)
  then show ?thesis using val_sym[OF assms] by simp
qed

lemma doubleton_eq: "{a, b} = {c, d} \<longleftrightarrow> (a = c \<and> b = d) \<or> (a = d \<and> b = c)"
  by (auto simp: doubleton_eq_iff)

lemma tree_edges_are_mst_edges:
  fixes tree :: "int list" and g :: csgraph
  assumes len: "length tree = n" and r: "r < n"
      and root: "\<forall>v < n. tree ! v = - 1 \<longleftrightarrow> v = r"
      and par: "\<forall>v < n. v \<noteq> r \<longrightarrow>
                 0 \<le> tree ! v \<and> nat (tree ! v) < n \<and> v \<in> set (neighbours g (nat (tree ! v)))"
      and acyc: "\<forall>v < n. \<forall>k. 0 < k \<longrightarrow> ancestor tree k v \<noteq> Some v"
      and lg: "length g = n - 1"
  shows "(\<lambda>v. {nat (tree ! v), v}) ` {v. v < n \<and> v \<noteq> r} = und ` set g"
    and "inj_on (\<lambda>v. {nat (tree ! v), v}) {v. v < n \<and> v \<noteq> r}"
    and "inj_on und (set g)" and "distinct g"
proof -
  let ?V = "{v. v < n \<and> v \<noteq> r}"
  let ?f = "\<lambda>v. {nat (tree ! v), v}"
  have finV: "finite ?V" by simp
  have cardV: "card ?V = n - 1"
  proof -
    have "?V = {..<n} - {r}" by auto
    then show ?thesis using r by simp
  qed
  show inj: "inj_on ?f ?V"
  proof (rule inj_onI)
    fix v v' assume v: "v \<in> ?V" and v': "v' \<in> ?V" and e: "?f v = ?f v'"
    show "v = v'"
    proof (rule ccontr)
      assume ne: "v \<noteq> v'"
      from e ne have sw: "nat (tree ! v) = v'" "v = nat (tree ! v')"
        by (auto simp: doubleton_eq)
      have "ancestor tree (Suc (Suc 0)) v = Some v"
        using v v' par len sw by simp
      moreover have "ancestor tree (Suc (Suc 0)) v \<noteq> Some v" using acyc v by blast
      ultimately show False by simp
    qed
  qed
  have sub: "?f ` ?V \<subseteq> und ` set g"
  proof
    fix a assume "a \<in> ?f ` ?V"
    then obtain v where v: "v < n" "v \<noteq> r" and a: "a = {nat (tree ! v), v}" by auto
    from par v have "v \<in> set (neighbours g (nat (tree ! v)))" by blast
    then obtain w where "(nat (tree ! v), v, w) \<in> set g \<or> (v, nat (tree ! v), w) \<in> set g"
      by (auto simp: neighbours_iff)
    then show "a \<in> und ` set g"
    proof
      assume "(nat (tree ! v), v, w) \<in> set g"
      then have "und (nat (tree ! v), v, w) \<in> und ` set g" by (rule imageI)
      then show ?thesis by (simp add: und_def a)
    next
      assume "(v, nat (tree ! v), w) \<in> set g"
      then have "und (v, nat (tree ! v), w) \<in> und ` set g" by (rule imageI)
      then show ?thesis by (simp add: und_def a insert_commute)
    qed
  qed
  have cardA: "card (?f ` ?V) = n - 1" using inj cardV by (simp add: card_image)
  have c1: "card (und ` set g) \<le> card (set g)" by (rule card_image_le) simp
  have c2: "card (set g) \<le> n - 1" using card_length[of g] lg by simp
  have "card (und ` set g) \<le> card (?f ` ?V)" using c1 c2 cardA by simp
  then show eq: "?f ` ?V = und ` set g" using sub by (intro card_seteq) simp_all
  have cB: "card (und ` set g) = n - 1" using eq cardA by simp
  then have cg: "card (set g) = length g" using c1 c2 lg by simp
  then show "distinct g" by (rule card_distinct)
  show "inj_on und (set g)" using cB cg lg by (intro eq_card_imp_inj_on) simp_all
qed

lemma sum_list_map_concat:
  fixes h :: "'a \<Rightarrow> real"
  shows "sum_list (map h (concat xss)) = sum_list (map (\<lambda>xs. sum_list (map h xs)) xss)"
  by (induction xss) simp_all

lemma total_tree_graph:
  assumes len: "length tree = n" and r: "r < n"
      and root: "\<forall>v < n. tree ! v = - 1 \<longleftrightarrow> v = r"
      and par: "\<forall>v < n. v \<noteq> r \<longrightarrow> 0 \<le> tree ! v"
  shows "total m (tree_graph m tree) = (\<Sum>v \<in> {v. v < n \<and> v \<noteq> r}. val m (nat (tree ! v)) v)"
proof -
  let ?h = "\<lambda>(i, j, w). val m i j"
  let ?F = "\<lambda>v. if 0 \<le> tree ! v then [(nat (tree ! v), v, val m (nat (tree ! v)) v)] else []"
  let ?t = "\<lambda>v. if 0 \<le> tree ! v then val m (nat (tree ! v)) v else 0"
  have "total m (tree_graph m tree) = sum_list (map (\<lambda>v. sum_list (map ?h (?F v))) [0..<n])"
    by (simp add: total_def tree_graph_def len sum_list_map_concat comp_def)
  also have "map (\<lambda>v. sum_list (map ?h (?F v))) [0..<n] = map ?t [0..<n]"
    by (rule map_cong) simp_all
  also have "sum_list (map ?t [0..<n]) = (\<Sum>v<n. ?t v)" by (rule sum_list_upt)
  also have "\<dots> = (\<Sum>v \<in> {v. v < n \<and> v \<noteq> r}. val m (nat (tree ! v)) v)"
  proof (rule sum.mono_neutral_cong_right)
    show "finite {..<n}" by simp
    show "{v. v < n \<and> v \<noteq> r} \<subseteq> {..<n}" by auto
    show "\<forall>i \<in> {..<n} - {v. v < n \<and> v \<noteq> r}. ?t i = 0" using root r by auto
    show "\<And>x. x \<in> {v. v < n \<and> v \<noteq> r} \<Longrightarrow> ?t x = val m (nat (tree ! x)) x" using par by auto
  qed
  finally show ?thesis .
qed

lemma total_by_edge_set:
  assumes w: "weights n m" and e: "edges_in n g" and d: "distinct g" and i: "inj_on und (set g)"
  shows "total m g = (\<Sum>b \<in> und ` set g. val m (Min b) (Max b))"
proof -
  have "total m g = (\<Sum>e \<in> set g. (\<lambda>(i, j, w). val m i j) e)"
    unfolding total_def using d by (rule sum_list_distinct_conv_sum_set)
  also have "\<dots> = (\<Sum>e \<in> set g. val m (Min (und e)) (Max (und e)))"
  proof (rule sum.cong[OF refl])
    fix x assume x: "x \<in> set g"
    obtain a b c where abc: "x = (a, b, c)" by (cases x)
    then have "a < n" "b < n" using e x by (auto simp: edges_in_def)
    from val_und[OF w this] show "(\<lambda>(i, j, w). val m i j) x = val m (Min (und x)) (Max (und x))"
      by (simp add: abc und_def)
  qed
  also have "\<dots> = (\<Sum>b \<in> und ` set g. val m (Min b) (Max b))"
    using i by (simp add: sum.reindex)
  finally show ?thesis .
qed

lemma tree_graph_total:
  fixes tree :: "int list" and g :: csgraph
  assumes w: "weights n m" and e: "edges_in n g"
      and len: "length tree = n" and r: "r < n"
      and root: "\<forall>v < n. tree ! v = - 1 \<longleftrightarrow> v = r"
      and par: "\<forall>v < n. v \<noteq> r \<longrightarrow>
                 0 \<le> tree ! v \<and> nat (tree ! v) < n \<and> v \<in> set (neighbours g (nat (tree ! v)))"
      and acyc: "\<forall>v < n. \<forall>k. 0 < k \<longrightarrow> ancestor tree k v \<noteq> Some v"
      and lg: "length g = n - 1"
  shows "total m (tree_graph m tree) = total m g"
proof -
  let ?V = "{v. v < n \<and> v \<noteq> r}"
  let ?f = "\<lambda>v. {nat (tree ! v), v}"
  note E = tree_edges_are_mst_edges[OF len r root par acyc lg]
  have "total m (tree_graph m tree) = (\<Sum>v \<in> ?V. val m (nat (tree ! v)) v)"
    using par by (intro total_tree_graph[OF len r root]) blast
  also have "\<dots> = (\<Sum>v \<in> ?V. val m (Min (?f v)) (Max (?f v)))"
  proof (rule sum.cong[OF refl])
    fix v assume "v \<in> ?V"
    then have "nat (tree ! v) < n" "v < n" using par by auto
    from val_und[OF w this] show "val m (nat (tree ! v)) v = val m (Min (?f v)) (Max (?f v))" .
  qed
  also have "\<dots> = (\<Sum>b \<in> ?f ` ?V. val m (Min b) (Max b))"
    using E(2) by (simp add: sum.reindex)
  also have "\<dots> = (\<Sum>b \<in> und ` set g. val m (Min b) (Max b))" using E(1) by simp
  also have "\<dots> = total m g" using total_by_edge_set[OF w e E(4) E(3)] by simp
  finally show ?thesis .
qed

lemma und_tree_graph:
  assumes len: "length tree = n" and r: "r < n"
      and root: "\<forall>v < n. tree ! v = - 1 \<longleftrightarrow> v = r"
      and par: "\<forall>v < n. v \<noteq> r \<longrightarrow> 0 \<le> tree ! v"
  shows "und ` set (tree_graph m tree) = (\<lambda>v. {nat (tree ! v), v}) ` {v. v < n \<and> v \<noteq> r}"
proof -
  have V: "{v. v < n \<and> 0 \<le> tree ! v} = {v. v < n \<and> v \<noteq> r}"
    using root par r by fastforce
  have "set (tree_graph m tree) =
      (\<lambda>v. (nat (tree ! v), v, val m (nat (tree ! v)) v)) ` {v. v < n \<and> 0 \<le> tree ! v}"
    by (auto simp: tree_graph_def len)
  then have "und ` set (tree_graph m tree) =
      (\<lambda>v. und (nat (tree ! v), v, val m (nat (tree ! v)) v)) ` {v. v < n \<and> 0 \<le> tree ! v}"
    by (simp add: image_image)
  then show ?thesis by (simp add: und_def V)
qed

lemma builder_run:
  assumes len: "length adj_matrix = n" and n: "0 < n"
      and sp: "spanning n (minimum_spanning_tree (mst_costs adj_matrix))"
      and root: "case root_index of None \<Rightarrow> True | Some r \<Rightarrow> r < n"
  shows "\<exists>bfs tree r.
           maximum_spanning_tree minimum_spanning_tree adj_matrix root_index = Inr (bfs, tree) \<and>
           r < n \<and> (root_index = None \<or> root_index = Some r) \<and> length tree = n \<and>
           (\<forall>v < n. tree ! v = - 1 \<longleftrightarrow> v = r) \<and>
           (\<forall>v < n. \<exists>k \<le> n - 1. ancestor tree k v = Some r) \<and>
           (\<forall>v < n. \<forall>k. 0 < k \<longrightarrow> ancestor tree k v \<noteq> Some v) \<and>
           (\<forall>v < n. v \<noteq> r \<longrightarrow> 0 \<le> tree ! v \<and> nat (tree ! v) < n \<and>
              v \<in> set (neighbours (minimum_spanning_tree (mst_costs adj_matrix))
                         (nat (tree ! v))))"
proof -
  let ?mst = "minimum_spanning_tree (mst_costs adj_matrix)"
  have g: "edges_in n ?mst" "graph_connected n ?mst" using sp by (simp_all add: spanning_def)
  obtain r where r: "r < n"
    and sel: "(case root_index of None \<Rightarrow> select_root n ?mst | Some r \<Rightarrow> Inr r) = Inr r"
    and given: "root_index = None \<or> root_index = Some r"
  proof (cases root_index)
    case None
    from select_root_bound[OF n, of ?mst] obtain r where "r < n" "select_root n ?mst = Inr r"
      by blast
    then show ?thesis using that None by simp
  next
    case (Some r)
    then show ?thesis using that root by simp
  qed
  obtain nodes pred where bfs: "breadth_first_order n ?mst r = (nodes, pred)"
    by (cases "breadth_first_order n ?mst r")
  have run: "maximum_spanning_tree minimum_spanning_tree adj_matrix root_index =
      Inr (nodes, pred[r := - 1])"
    using sel r bfs len by (simp add: maximum_spanning_tree_def bind_def Let_def)
  note T = breadth_first_order_tree[OF g r bfs]
  have P: "\<forall>v < n. v \<noteq> r \<longrightarrow> 0 \<le> (pred[r := - 1]) ! v \<and> nat ((pred[r := - 1]) ! v) < n \<and>
              v \<in> set (neighbours ?mst (nat ((pred[r := - 1]) ! v)))"
    using breadth_first_order_parents[OF g r bfs] by blast
  show ?thesis
    by (intro exI[of _ nodes] exI[of _ "pred[r := - 1]"] exI[of _ r] conjI run r given T P)
qed

section \<open>The tree builder on concrete matrices\<close>

lemma all_less_5: "(\<forall>i < (5::nat). P i) \<longleftrightarrow> P 0 \<and> P 1 \<and> P 2 \<and> P 3 \<and> P 4"
  by (auto simp: eval_nat_numeral less_Suc_eq)

lemma all_less_3: "(\<forall>i < (3::nat). P i) \<longleftrightarrow> P 0 \<and> P 1 \<and> P 2"
  by (auto simp: eval_nat_numeral less_Suc_eq)

lemma weights_adj5: "weights 5 adj5"
  by (simp add: weights_def adj5_def all_less_5)

lemma spanning_path5: "spanning 5 path5"
  by (simp add: spanning_def edges_in_def graph_connected_def path5_def neighbours_def
      eval_nat_numeral upt_ev)

lemmas float_ev = float32_def float64_def round_to_def expo_def expo_up.simps expo_down.simps
  round_even_def Let_def

lemma mst_costs_adj3:
  "mst_costs adj3 = map (map Fin) [[- 1, - 6, - 2], [- 6, - 1, - 6], [- 2, - 6, - 1]]"
  by (simp add: mst_costs_def adj3_def float_ev)

lemma kruskal_adj3: "kruskal (mst_costs adj3) = [(0, 1, - 6), (1, 2, - 6)]"
  unfolding mst_costs_adj3 by code_simp

lemma weights_adj3: "weights 3 adj3"
  by (simp add: weights_def adj3_def all_less_3)

lemma shift_exact_adj3: "shift_exact 3 adj3"
  by (auto simp: shift_exact_def adj3_def all_less_3) (simp_all add: float_ev)

lemma spanning_adj3: "spanning 3 [(0, 1, - 6), (1, 2, - 6)]"
  by (simp add: spanning_def edges_in_def graph_connected_def neighbours_def eval_nat_numeral upt_ev)

lemma val_costs_adj3: "i < 3 \<Longrightarrow> j < 3 \<Longrightarrow> - 6 \<le> val (mst_costs adj3) i j"
  unfolding mst_costs_adj3 by (auto simp: val_def eval_nat_numeral less_Suc_eq)

lemma minimum_adj3: "minimum_spanning 3 (mst_costs adj3) [(0, 1, - 6), (1, 2, - 6)]"
  unfolding minimum_spanning_def
proof (intro conjI allI impI)
  show "spanning 3 [(0, 1, - 6), (1, 2, - 6)]" by (rule spanning_adj3)
next
  fix s assume s: "spanning 3 s"
  then obtain e1 e2 where s2: "s = [e1, e2]"
    by (cases s; cases "tl s"; cases "tl (tl s)") (auto simp: spanning_def)
  obtain i1 j1 w1 i2 j2 w2 where e: "e1 = (i1, j1, w1)" "e2 = (i2, j2, w2)"
    by (cases e1, cases e2) auto
  have "i1 < 3" "j1 < 3" "i2 < 3" "j2 < 3"
    using s s2 e by (auto simp: spanning_def edges_in_def)
  then have "- 6 \<le> val (mst_costs adj3) i1 j1" "- 6 \<le> val (mst_costs adj3) i2 j2"
    by (simp_all add: val_costs_adj3)
  moreover have "total (mst_costs adj3) [(0, 1, - 6), (1, 2, - 6)] = - 12"
    unfolding mst_costs_adj3 by (simp add: total_def val_def)
  ultimately show "total (mst_costs adj3) [(0, 1, - 6), (1, 2, - 6)] \<le> total (mst_costs adj3) s"
    by (simp add: total_def s2 e)
qed

section \<open>The tree builder\<close>

text \<open>
  C4. For a symmetric matrix of non-negative weights on \<open>n > 0\<close> nodes and a root that
  is a valid index or is not given, whenever the library's routine returns a spanning tree
  of the (connected) graph of the costs, the tree builder returns a predecessor array of
  length \<open>n\<close> whose only entry \<open>-1\<close> is at the root (the given one, if one is given);
  from every node the parent links lead to the root in at most \<open>n - 1\<close> steps, and no
  node is its own ancestor.
\<close>

theorem predecessor_array_is_rooted_tree:
  assumes w: "weights n adj_matrix" and n: "0 < n"
      and lib: "returns_spanning_tree minimum_spanning_tree (mst_costs adj_matrix)"
      and root: "case root_index of None \<Rightarrow> True | Some r \<Rightarrow> r < n"
  shows "\<exists>bfs tree r.
           maximum_spanning_tree minimum_spanning_tree adj_matrix root_index = Inr (bfs, tree) \<and>
           r < n \<and> (root_index = None \<or> root_index = Some r) \<and> length tree = n \<and>
           (\<forall>v < n. tree ! v = - 1 \<longleftrightarrow> v = r) \<and>
           (\<forall>v < n. \<exists>k \<le> n - 1. ancestor tree k v = Some r) \<and>
           (\<forall>v < n. \<forall>k. 0 < k \<longrightarrow> ancestor tree k v \<noteq> Some v)"
proof -
  have len: "length adj_matrix = n" using w by (simp add: weights_def)
  have sp: "spanning n (minimum_spanning_tree (mst_costs adj_matrix))"
    using lib cost_graph_connected[OF w] len
    by (simp add: returns_spanning_tree_def length_mst_costs)
  from builder_run[where minimum_spanning_tree = minimum_spanning_tree, OF len n sp root]
  obtain bfs tree r where
    "maximum_spanning_tree minimum_spanning_tree adj_matrix root_index = Inr (bfs, tree)"
    "r < n" "root_index = None \<or> root_index = Some r" "length tree = n"
    "\<forall>v < n. tree ! v = - 1 \<longleftrightarrow> v = r"
    "\<forall>v < n. \<exists>k \<le> n - 1. ancestor tree k v = Some r"
    "\<forall>v < n. \<forall>k. 0 < k \<longrightarrow> ancestor tree k v \<noteq> Some v"
    by blast
  then show ?thesis by (intro exI[of _ bfs] exI[of _ tree] exI[of _ r] conjI)
qed

theorem predecessor_array_is_rooted_tree_witness:
  "\<exists>bfs tree. maximum_spanning_tree kruskal adj5 (Some 2) = Inr (bfs, tree) \<and>
      tree ! 2 = - 1 \<and> (\<exists>k. k \<le> 4 \<and> ancestor tree k 0 = Some 2)"
proof -
  have len: "length (mst_costs adj5) = 5" by (simp add: mst_costs_def adj5_def)
  have lib: "returns_spanning_tree kruskal (mst_costs adj5)"
    unfolding returns_spanning_tree_def len kruskal_adj5 using spanning_path5 by blast
  have root: "case Some (2::nat) of None \<Rightarrow> True | Some r \<Rightarrow> r < 5" by simp
  from predecessor_array_is_rooted_tree[OF weights_adj5 _ lib root]
  obtain bfs tree r where run: "maximum_spanning_tree kruskal adj5 (Some 2) = Inr (bfs, tree)"
    and r: "Some 2 = Some r"
    and one: "\<forall>v < 5. tree ! v = - 1 \<longleftrightarrow> v = r"
    and up: "\<forall>v < 5. \<exists>k \<le> 5 - 1. ancestor tree k v = Some r"
    by auto
  from r have "r = 2" by simp
  with one up have "tree ! 2 = - 1" "\<exists>k. k \<le> 4 \<and> ancestor tree k 0 = Some 2"
    by (auto simp: all_less_5)
  with run show ?thesis by blast
qed

section \<open>The weight of the tree\<close>

text \<open>
  When adding one to every weight is exact, the reduction to least cost is right: for a
  symmetric matrix of non-negative weights, whenever the library's routine returns a
  spanning tree of least total cost, that tree has the greatest total weight of all
  spanning trees, and the rooted tree returned by the tree builder has the same
  undirected edges, hence the greatest total weight as well.
\<close>

lemma maximum_weight_when_shift_exact:
  assumes w: "weights n adj_matrix" and x: "shift_exact n adj_matrix" and n: "0 < n"
      and lib: "returns_minimum_spanning_tree minimum_spanning_tree (mst_costs adj_matrix)"
      and root: "case root_index of None \<Rightarrow> True | Some r \<Rightarrow> r < n"
  shows "maximum_spanning n adj_matrix (minimum_spanning_tree (mst_costs adj_matrix)) \<and>
         (\<exists>bfs tree.
            maximum_spanning_tree minimum_spanning_tree adj_matrix root_index = Inr (bfs, tree) \<and>
            und ` set (tree_graph adj_matrix tree) =
              und ` set (minimum_spanning_tree (mst_costs adj_matrix)) \<and>
            (\<forall>s. spanning n s \<longrightarrow>
               total adj_matrix s \<le> total adj_matrix (tree_graph adj_matrix tree)))"
proof -
  let ?mst = "minimum_spanning_tree (mst_costs adj_matrix)"
  have len: "length adj_matrix = n" using w by (simp add: weights_def)
  have "minimum_spanning n (mst_costs adj_matrix) ?mst"
    using lib cost_graph_connected[OF w] len
    by (simp add: returns_minimum_spanning_tree_def length_mst_costs)
  then have mx: "maximum_spanning n adj_matrix ?mst"
    by (rule minimum_costs_maximum_weights[OF w x])
  then have sp: "spanning n ?mst" by (simp add: maximum_spanning_def)
  from builder_run[where minimum_spanning_tree = minimum_spanning_tree, OF len n sp root]
  obtain bfs tree r where
    run: "maximum_spanning_tree minimum_spanning_tree adj_matrix root_index = Inr (bfs, tree)"
    and r: "r < n" and tl: "length tree = n"
    and one: "\<forall>v < n. tree ! v = - 1 \<longleftrightarrow> v = r"
    and acyc: "\<forall>v < n. \<forall>k. 0 < k \<longrightarrow> ancestor tree k v \<noteq> Some v"
    and par: "\<forall>v < n. v \<noteq> r \<longrightarrow> 0 \<le> tree ! v \<and> nat (tree ! v) < n \<and>
              v \<in> set (neighbours ?mst (nat (tree ! v)))"
    by blast
  have e: "edges_in n ?mst" and lg: "length ?mst = n - 1" using sp by (simp_all add: spanning_def)
  have par0: "\<forall>v < n. v \<noteq> r \<longrightarrow> 0 \<le> tree ! v" using par by blast
  have same: "und ` set (tree_graph adj_matrix tree) = und ` set ?mst"
    using und_tree_graph[OF tl r one par0]
      tree_edges_are_mst_edges(1)[OF tl r one par acyc lg] by simp
  have tot: "total adj_matrix (tree_graph adj_matrix tree) = total adj_matrix ?mst"
    by (rule tree_graph_total[OF w e tl r one par acyc lg])
  have "\<forall>s. spanning n s \<longrightarrow> total adj_matrix s \<le> total adj_matrix (tree_graph adj_matrix tree)"
    using mx tot by (simp add: maximum_spanning_def)
  with mx run same show ?thesis by blast
qed

lemma maximum_weight_adj3:
  "\<exists>bfs tree. maximum_spanning_tree kruskal adj3 None = Inr (bfs, tree) \<and>
      total adj3 [(0, 2, - 2), (1, 2, - 6)] \<le> total adj3 (tree_graph adj3 tree) \<and>
      total adj3 [(0, 2, - 2), (1, 2, - 6)] = 6"
proof -
  have len: "length (mst_costs adj3) = 3" by (simp add: mst_costs_def adj3_def)
  have lib: "returns_minimum_spanning_tree kruskal (mst_costs adj3)"
    unfolding returns_minimum_spanning_tree_def len kruskal_adj3 using minimum_adj3 by blast
  have other: "spanning 3 [(0, 2, - 2), (1, 2, - 6)]"
    by (simp add: spanning_def edges_in_def graph_connected_def neighbours_def
        eval_nat_numeral upt_ev)
  have root: "case (None :: nat option) of None \<Rightarrow> True | Some r \<Rightarrow> r < 3" by simp
  from maximum_weight_when_shift_exact[OF weights_adj3 shift_exact_adj3 _ lib root]
  obtain bfs tree where run: "maximum_spanning_tree kruskal adj3 None = Inr (bfs, tree)"
    and mx: "\<forall>s. spanning 3 s \<longrightarrow> total adj3 s \<le> total adj3 (tree_graph adj3 tree)"
    by auto
  from mx other
  have "total adj3 [(0, 2, - 2), (1, 2, - 6)] \<le> total adj3 (tree_graph adj3 tree)" by blast
  moreover have "total adj3 [(0, 2, - 2), (1, 2, - 6)] = 6"
    by (simp add: total_def val_def adj3_def)
  ultimately show ?thesis using run by blast
qed

text \<open>
  On \<open>tiny3\<close> the sums \<open>weight + 1\<close> are all rounded to one, so that every cost is
  \<open>-1\<close> and every spanning tree has the least total cost; the library's routine keeps
  the first edges it meets, 0 - 1 and 0 - 2.
\<close>

lemma ex_times: "0 < c \<Longrightarrow> 0 \<le> a \<Longrightarrow> \<exists>x\<ge>0. x * c = (a::real)"
  by (rule exI[of _ "a / c"]) simp

lemma weights_tiny3: "weights 3 tiny3"
  by (simp add: weights_def tiny3_def all_less_3 ex_times)

lemma mst_costs_tiny3: "mst_costs tiny3 = replicate 3 (replicate 3 (Fin (- 1)))"
  by (simp add: mst_costs_def tiny3_def float_ev eval_nat_numeral)

lemma kruskal_tiny3: "kruskal (replicate 3 (replicate 3 (Fin (- 1)))) = star3"
  unfolding star3_def by code_simp

lemma spanning_tiny3: "spanning 3 star3" "spanning 3 [(0, 2, - 1), (1, 2, - 1)]"
  by (simp_all add: spanning_def edges_in_def graph_connected_def neighbours_def star3_def
      eval_nat_numeral upt_ev)

lemma minimum_tiny3: "minimum_spanning 3 (mst_costs tiny3) (kruskal (mst_costs tiny3))"
  unfolding minimum_spanning_def mst_costs_tiny3 kruskal_tiny3
proof (intro conjI allI impI)
  show "spanning 3 star3" by (rule spanning_tiny3)
next
  fix s assume s: "spanning 3 s"
  then obtain e1 e2 where s2: "s = [e1, e2]"
    by (cases s; cases "tl s"; cases "tl (tl s)") (auto simp: spanning_def)
  obtain i1 j1 w1 i2 j2 w2 where e: "e1 = (i1, j1, w1)" "e2 = (i2, j2, w2)"
    by (cases e1, cases e2) auto
  have "i1 < 3" "j1 < 3" "i2 < 3" "j2 < 3"
    using s s2 e by (auto simp: spanning_def edges_in_def)
  then show "total (replicate 3 (replicate 3 (Fin (- 1)))) star3
        \<le> total (replicate 3 (replicate 3 (Fin (- 1)))) s"
    by (simp add: total_def val_def s2 e star3_def)
qed

lemma select_root_tiny3: "select_root 3 star3 = Inr 0"
  by (simp add: select_root_def abs_csgraph_def dijkstra_def relax_def upt_ev fmin_def
      eval_nat_numeral row_max_def fmax_def argmin_def star3_def)

lemma breadth_first_order_tiny3:
  "breadth_first_order 3 star3 0 = ([0, 1, 2], [- 9999, 0, 0])"
  by (simp add: breadth_first_order_def bfs_loop.simps neighbours_def visit_def
      NULL_IDX_def eval_nat_numeral star3_def)

text \<open>
  C3. The tree builder does not always return a spanning tree of greatest weight: the
  costs are computed in \<open>float32\<close>, where adding one absorbs what is small. On
  \<open>tiny3\<close> every cost is \<open>-1\<close>, the tree returned has the edges 0 - 1 and 0 - 2 of total
  weight \<open>3 / 2 ^ 30\<close>, and the spanning tree with the edges 0 - 2 and 1 - 2 weighs
  \<open>5 / 2 ^ 30\<close>.
\<close>

theorem shift_by_one_absorbs_small_weights:
  "mst_costs tiny3 = replicate 3 (replicate 3 (Fin (- 1))) \<and>
   maximum_spanning_tree kruskal tiny3 None = Inr ([0, 1, 2], [- 1, 0, 0]) \<and>
   total tiny3 (tree_graph tiny3 [- 1, 0, 0]) = 3 / 2 ^ 30 \<and>
   total tiny3 [(0, 2, - 1), (1, 2, - 1)] = 5 / 2 ^ 30"
proof -
  have n: "length tiny3 = 3" by (simp add: tiny3_def)
  have run: "maximum_spanning_tree kruskal tiny3 None = Inr ([0, 1, 2], [- 1, 0, 0])"
    by (simp add: maximum_spanning_tree_def n mst_costs_tiny3 kruskal_tiny3 select_root_tiny3
        bind_def breadth_first_order_tiny3)
  have t: "total tiny3 (tree_graph tiny3 [- 1, 0, 0]) = 3 / 2 ^ 30"
    by (simp add: total_def tree_graph_def val_def tiny3_def upt_ev)
  have o: "total tiny3 [(0, 2, - 1), (1, 2, - 1)] = 5 / 2 ^ 30"
    by (simp add: total_def val_def tiny3_def)
  from mst_costs_tiny3 run t o show ?thesis by (intro conjI)
qed

end
